theory Spec2Isabelle
  imports Complex_Main
begin

section \<open>Data model\<close>

text \<open>
  \<^verbatim>\<open>Value\<close>, \<^verbatim>\<open>Depth\<close> and \<^verbatim>\<open>Move\<close> are enums over \<^verbatim>\<open>int\<close> in the engine. They
  are carried as integers; each arithmetic operation of \<^verbatim>\<open>thread.cpp\<close> on them is followed
  by the wrap-around of its C++ type, 32 bits for \<^verbatim>\<open>int\<close> and \<^verbatim>\<open>Value\<close>, 64 bits for the
  \<^verbatim>\<open>int64_t\<close> vote totals. (Signed overflow is undefined in C++; the wrap-around is what
  the compiled code does.)
\<close>

type_synonym Value = int
type_synonym Depth = int
type_synonym Move = nat

definition int32 :: "int \<Rightarrow> int" where
  "int32 x = (x + 2 ^ 31) mod 2 ^ 32 - 2 ^ 31"

definition int64 :: "int \<Rightarrow> int" where
  "int64 x = (x + 2 ^ 63) mod 2 ^ 64 - 2 ^ 63"

text \<open>
  The named constants of \<^verbatim>\<open>types.h\<close> that \<^verbatim>\<open>thread.cpp\<close> reads, and \<^verbatim>\<open>MAX_PLY\<close>, the
  engine's bound on search depth. The header is not part of the sources at hand, so the
  constants are parameters of every definition and statement that uses them.
\<close>

record value_consts =
  VALUE_NONE :: Value
  VALUE_INFINITE :: Value
  VALUE_TB_WIN_IN_MAX_PLY :: Value
  VALUE_TB_LOSS_IN_MAX_PLY :: Value
  MOVE_NONE :: Move
  MAX_PLY :: Depth

text \<open>The values the upstream engine gives these constants; used to instantiate theorems.\<close>

definition upstream_consts :: value_consts where
  "upstream_consts =
     \<lparr>VALUE_NONE = 32002, VALUE_INFINITE = 32001,
      VALUE_TB_WIN_IN_MAX_PLY = 31508, VALUE_TB_LOSS_IN_MAX_PLY = - 31508,
      MOVE_NONE = 0, MAX_PLY = 246\<rparr>"

text \<open>
  Modelled from the spec: \<^verbatim>\<open>RootMove\<close> (\<^verbatim>\<open>search.h\<close> is not among the sources): a
  candidate first move with its current score and its principal variation, read by
  \<^verbatim>\<open>thread.cpp\<close> as \<^verbatim>\<open>rootMoves[i].score\<close> and \<^verbatim>\<open>rootMoves[i].pv\<close>.
\<close>

record RootMove =
  score :: Value
  pv :: "Move list"

text \<open>
  Modelled from the spec: \<^verbatim>\<open>Position\<close> (\<^verbatim>\<open>position.h\<close> is not among the sources).
  \<^verbatim>\<open>thread.cpp\<close> reads a position only through \<^verbatim>\<open>fen()\<close> and \<^verbatim>\<open>is_chess960()\<close> and
  rebuilds it with \<^verbatim>\<open>set(fen, chess960, ...)\<close>, so a position is the pair of the two.
\<close>

record Position =
  fen :: string
  is_chess960 :: bool

type_synonym StateInfo = nat
type_synonym StateListPtr = "StateInfo list option"

datatype StatsType = NoCaptures | Captures

text \<open>
  Where the worker's OS thread stands inside \<^verbatim>\<open>Thread::idle_loop\<close>:
  launched and about to read \<^verbatim>\<open>_threads\<close> (line 102), blocked in
  \<^verbatim>\<open>cv.wait(lk, searching)\<close>, inside \<^verbatim>\<open>search()\<close>, or returned from the loop. \<open>BadRead\<close> is
  a worker that has read \<^verbatim>\<open>_threads\<close> before the constructor stored it: from there on the
  program has no defined behaviour.
\<close>

datatype worker_pc = Launched | Parked | InSearch | Returned | BadRead

text \<open>The members \<^verbatim>\<open>MainThread\<close> adds to \<^verbatim>\<open>Thread\<close>.\<close>

record MainThread =
  previousTimeReduction :: real
  bestPreviousScore :: Value
  bestPreviousAverageScore :: Value
  callsCnt :: int
  stopOnPonderhit :: bool
  ponder :: bool

text \<open>
  \<^verbatim>\<open>class Thread\<close>, with the members \<^verbatim>\<open>thread.cpp\<close> reads or writes. The field \<open>main_part\<close>
  is \<open>Some\<close> exactly for an object whose dynamic type is \<^verbatim>\<open>MainThread\<close>. A statistics
  table is a function from its (flattened) index to the entry. The field \<open>worker\<close>
  records where the OS thread \<^verbatim>\<open>stdThread\<close> stands, and \<open>threads_stored\<close> whether the
  member \<^verbatim>\<open>_threads\<close>, declared after \<^verbatim>\<open>stdThread\<close>, holds the pool's address yet or is
  still indeterminate.
\<close>

record Thread =
  idx :: nat
  exit :: bool
  searching :: bool
  worker :: worker_pc
  threads_stored :: bool
  nodes :: nat
  tbHits :: nat
  bestMoveChanges :: nat
  nmpMinPly :: int
  rootPos :: Position
  rootState :: StateInfo
  rootMoves :: "RootMove list"
  rootDepth :: Depth
  completedDepth :: Depth
  counterMoves :: "nat \<Rightarrow> Move"
  mainHistory :: "nat \<Rightarrow> int"
  captureHistory :: "nat \<Rightarrow> int"
  continuationHistory :: "bool \<Rightarrow> StatsType \<Rightarrow> nat \<Rightarrow> nat \<Rightarrow> nat \<Rightarrow> int"
  main_part :: "MainThread option"

text \<open>What a call can do instead of returning a value.\<close>

datatype fault = AssertionFailure | UndefinedBehaviour | BlocksForever

section \<open>\<^verbatim>\<open>ThreadPool::get_best_thread\<close>\<close>

text \<open>\<^verbatim>\<open>th->rootMoves[0].score\<close> and \<^verbatim>\<open>th->rootMoves[0].pv[0]\<close>; both are read only after
  \<open>get_best_thread\<close> has checked that the subscripts are in range.\<close>

definition root_score :: "Thread \<Rightarrow> Value" where
  "root_score th = score (hd (rootMoves th))"

definition first_move :: "Thread \<Rightarrow> Move" where
  "first_move th = hd (pv (hd (rootMoves th)))"

definition pv_size :: "Thread \<Rightarrow> nat" where
  "pv_size th = length (pv (hd (rootMoves th)))"

text \<open>The first loop: \<^verbatim>\<open>minScore = VALUE_NONE; for th: minScore = min(minScore, score)\<close>.\<close>

definition min_score :: "value_consts \<Rightarrow> Thread list \<Rightarrow> Value" where
  "min_score c ths = fold (\<lambda>th m. min m (root_score th)) ths (VALUE_NONE c)"

text \<open>The lambda \<^verbatim>\<open>thread_value\<close>: a subtraction, an addition and a multiplication, each in
  32-bit \<^verbatim>\<open>int\<close>.\<close>

definition thread_value :: "Value \<Rightarrow> Thread \<Rightarrow> int" where
  "thread_value minScore th =
     int32 (int32 (int32 (root_score th - minScore) + 14) * completedDepth th)"

text \<open>The second loop. \<^verbatim>\<open>std::map::operator[]\<close> starts a missing key at 0, so the map is a
  total function that is 0 everywhere at first; the totals are \<^verbatim>\<open>int64_t\<close>.\<close>

definition cast_votes :: "Value \<Rightarrow> Thread list \<Rightarrow> (Move \<Rightarrow> int)" where
  "cast_votes minScore ths =
     fold (\<lambda>th votes.
             votes(first_move th := int64 (votes (first_move th) + thread_value minScore th)))
       ths (\<lambda>_. 0)"

text \<open>The condition under which the body of the third loop assigns \<^verbatim>\<open>bestThread = th\<close>.\<close>

definition replaces :: "value_consts \<Rightarrow> Value \<Rightarrow> (Move \<Rightarrow> int) \<Rightarrow> Thread \<Rightarrow> Thread \<Rightarrow> bool" where
  "replaces c minScore votes bestThread th =
     (if int32 \<bar>root_score bestThread\<bar> \<ge> VALUE_TB_WIN_IN_MAX_PLY c
      then root_score th > root_score bestThread
      else (root_score th \<ge> VALUE_TB_WIN_IN_MAX_PLY c
            \<or> (root_score th > VALUE_TB_LOSS_IN_MAX_PLY c
                \<and> (votes (first_move th) > votes (first_move bestThread)
                    \<or> (votes (first_move th) = votes (first_move bestThread)
                        \<and> int32 (thread_value minScore th * of_bool (pv_size th > 2))
                           > int32 (thread_value minScore bestThread
                                     * of_bool (pv_size bestThread > 2)))))))"

text \<open>The third loop; \<^verbatim>\<open>bestThread\<close> is kept as the slot number of the thread it points to.\<close>

definition select_best :: "value_consts \<Rightarrow> Value \<Rightarrow> (Move \<Rightarrow> int) \<Rightarrow> Thread list \<Rightarrow> nat" where
  "select_best c minScore votes ths =
     fold (\<lambda>i best. if replaces c minScore votes (ths ! best) (ths ! i) then i else best)
       [0..<length ths] 0"

text \<open>
  \<^verbatim>\<open>threads.front()\<close> on an empty vector, \<^verbatim>\<open>rootMoves[0]\<close> on an empty list and \<^verbatim>\<open>pv[0]\<close>
  on an empty variation are undefined behaviour; each loop visits every thread, so any
  of them is reached whenever it is present. The result is the slot of the chosen thread.
\<close>

definition get_best_thread :: "value_consts \<Rightarrow> Thread list \<Rightarrow> fault + nat" where
  "get_best_thread c ths =
     (if ths = [] \<or> list_ex (\<lambda>th. rootMoves th = [] \<or> pv (hd (rootMoves th)) = []) ths
      then Inl UndefinedBehaviour
      else let minScore = min_score c ths;
               votes = cast_votes minScore ths
           in Inr (select_best c minScore votes ths))"

section \<open>\<^verbatim>\<open>Thread\<close>: the park and wake protocol\<close>

text \<open>
  The virtual \<^verbatim>\<open>search()\<close> lives in \<^verbatim>\<open>search.cpp\<close>, which is not among the sources: it is
  a parameter here, giving the state of the thread object when the call returns, or
  \<open>None\<close> when it never returns.
\<close>

type_synonym search_fn = "Thread \<Rightarrow> Thread option"

text \<open>\<^verbatim>\<open>Thread::start_searching\<close>: under the mutex, \<^verbatim>\<open>searching = true\<close>; then notify.\<close>

definition Thread_start_searching :: "Thread \<Rightarrow> Thread" where
  "Thread_start_searching th = th\<lparr>searching := True\<rparr>"

text \<open>The predicate of the \<^verbatim>\<open>cv.wait\<close> inside \<^verbatim>\<open>idle_loop\<close> (line 110): the one condition
  the parked worker wakes up on.\<close>

definition wake_predicate :: "Thread \<Rightarrow> bool" where
  "wake_predicate th = searching th"

text \<open>
  One step of the worker's OS thread through \<^verbatim>\<open>Thread::idle_loop\<close>, each taken with the
  mutex held; \<open>None\<close> when the worker cannot move (it is blocked in \<^verbatim>\<open>cv.wait\<close>, its
  search never returns, or it has left the loop).
  \<^item> \<open>Launched\<close>: read \<^verbatim>\<open>_threads\<close> for the test of the \<^verbatim>\<open>Threads\<close> option (line 102), which
    is undefined while the member is not stored; then enter the loop:
    \<^verbatim>\<open>searching = false\<close>, notify, block in \<^verbatim>\<open>cv.wait\<close>.
  \<^item> \<open>Parked\<close>: leave \<^verbatim>\<open>cv.wait\<close> once \<^verbatim>\<open>searching\<close> holds; \<^verbatim>\<open>if (exit) return\<close>,
    otherwise unlock and call \<^verbatim>\<open>search()\<close>.
  \<^item> \<open>InSearch\<close>: \<^verbatim>\<open>search()\<close> returns; the next iteration sets \<^verbatim>\<open>searching = false\<close>,
    notifies and blocks again.
  The outcome of the test of the \<^verbatim>\<open>Threads\<close> option only binds the OS thread to a
  processor group and changes nothing of the state kept here.
\<close>

definition idle_loop_step :: "search_fn \<Rightarrow> Thread \<Rightarrow> Thread option" where
  "idle_loop_step search th =
     (case worker th of
        Launched \<Rightarrow>
          if threads_stored th then Some (th\<lparr>searching := False, worker := Parked\<rparr>)
          else Some (th\<lparr>worker := BadRead\<rparr>)
      | Parked \<Rightarrow>
          if \<not> wake_predicate th then None
          else if exit th then Some (th\<lparr>worker := Returned\<rparr>)
          else Some (th\<lparr>worker := InSearch\<rparr>)
      | InSearch \<Rightarrow>
          (case search th of
             None \<Rightarrow> None
           | Some th' \<Rightarrow> Some (th'\<lparr>searching := False, worker := Parked\<rparr>))
      | Returned \<Rightarrow> None
      | BadRead \<Rightarrow> None)"

text \<open>
  A caller blocked on this thread (in \<^verbatim>\<open>cv.wait\<close> or in \<^verbatim>\<open>join\<close>) until \<open>P\<close> holds: while
  it is blocked only the worker moves. \<open>None\<close> is a caller that is never released.
\<close>

partial_function (option) blocked_until :: "search_fn \<Rightarrow> (Thread \<Rightarrow> bool) \<Rightarrow> Thread \<Rightarrow> Thread option" where
  "blocked_until search P th =
     (if P th then Some th
      else Option.bind (idle_loop_step search th) (blocked_until search P))"

text \<open>\<^verbatim>\<open>Thread::wait_for_search_finished\<close>: \<^verbatim>\<open>cv.wait(lk, [&]{ return !searching; })\<close>.\<close>

definition Thread_wait_for_search_finished :: "search_fn \<Rightarrow> Thread \<Rightarrow> Thread option" where
  "Thread_wait_for_search_finished search th = blocked_until search (\<lambda>t. \<not> searching t) th"

text \<open>\<^verbatim>\<open>stdThread.join()\<close>: blocked until the worker has returned from \<^verbatim>\<open>idle_loop\<close>.\<close>

definition join :: "search_fn \<Rightarrow> Thread \<Rightarrow> Thread option" where
  "join search th = blocked_until search (\<lambda>t. worker t = Returned) th"

definition or_blocks :: "'a option \<Rightarrow> fault + 'a" where
  "or_blocks r = (case r of None \<Rightarrow> Inl BlocksForever | Some x \<Rightarrow> Inr x)"

text \<open>Sequencing of calls that may fault.\<close>

definition and_then :: "fault + 'a \<Rightarrow> ('a \<Rightarrow> fault + 'b) \<Rightarrow> fault + 'b" where
  "and_then r f = (case r of Inl e \<Rightarrow> Inl e | Inr x \<Rightarrow> f x)"

text \<open>
  The worker moving between two steps of the thread that constructs the object: it takes
  its next step, if it has one, and a read of the unstored \<^verbatim>\<open>_threads\<close> is the undefined
  behaviour of the program.
\<close>

definition worker_runs :: "search_fn \<Rightarrow> Thread \<Rightarrow> fault + Thread" where
  "worker_runs search th =
     (case idle_loop_step search th of
        None \<Rightarrow> Inr th
      | Some th' \<Rightarrow> if worker th' = BadRead then Inl UndefinedBehaviour else Inr th')"

text \<open>
  \<^verbatim>\<open>Thread::Thread(threads, n)\<close>. \<open>raw\<close> is the indeterminate content of the storage the
  object is built in. Members are initialised in the order of their declaration, whatever
  the order of the initialiser list: \<^verbatim>\<open>idx\<close> and the two flags
  (\<^verbatim>\<open>exit = false, searching = true\<close>), then \<^verbatim>\<open>stdThread\<close>, which launches \<^verbatim>\<open>idle_loop\<close>, and
  only then \<^verbatim>\<open>_threads\<close>, \<^verbatim>\<open>rootPos\<close> and the empty \<^verbatim>\<open>rootMoves\<close>; the body waits in
  \<^verbatim>\<open>wait_for_search_finished\<close>. Nothing orders the store of \<^verbatim>\<open>_threads\<close> and the worker's
  read of it at line 102: \<open>reads_early\<close> says that the scheduler lets the worker take its
  first step before the store. (By the letter of the C++ memory model the two accesses
  race in every execution; the model follows the machine, on which a read after the
  store finds the pool's address.)
\<close>

definition Thread_ctor :: "search_fn \<Rightarrow> bool \<Rightarrow> Thread \<Rightarrow> nat \<Rightarrow> fault + Thread" where
  "Thread_ctor search reads_early raw n =
     (let launched = raw\<lparr>idx := n, exit := False, searching := True, worker := Launched,
                        threads_stored := False\<rparr>
      in and_then (if reads_early then worker_runs search launched else Inr launched) (\<lambda>th.
           or_blocks (Thread_wait_for_search_finished search
             (th\<lparr>threads_stored := True, rootMoves := [], main_part := None\<rparr>))))"

text \<open>\<^verbatim>\<open>MainThread::MainThread(threads, s)\<close>: the \<^verbatim>\<open>Thread\<close> constructor on an object that also
  has the \<^verbatim>\<open>MainThread\<close> members, none of which it initialises.\<close>

definition MainThread_ctor ::
    "search_fn \<Rightarrow> bool \<Rightarrow> Thread \<Rightarrow> MainThread \<Rightarrow> nat \<Rightarrow> fault + Thread" where
  "MainThread_ctor search reads_early raw raw_main s =
     (let launched = raw\<lparr>idx := s, exit := False, searching := True, worker := Launched,
                        threads_stored := False\<rparr>
      in and_then (if reads_early then worker_runs search launched else Inr launched) (\<lambda>th.
           or_blocks (Thread_wait_for_search_finished search
             (th\<lparr>threads_stored := True, rootMoves := [], main_part := Some raw_main\<rparr>))))"

text \<open>The two statements by which \<^verbatim>\<open>Thread::~Thread\<close> signals the worker:
  \<^verbatim>\<open>exit = true; start_searching();\<close>.\<close>

definition signal_exit :: "Thread \<Rightarrow> Thread" where
  "signal_exit th = Thread_start_searching (th\<lparr>exit := True\<rparr>)"

text \<open>\<^verbatim>\<open>Thread::~Thread\<close>: \<^verbatim>\<open>assert(!searching)\<close>, the signal, \<^verbatim>\<open>stdThread.join()\<close>. The result
  is the last state of the destroyed object. Assertions are taken as compiled in, here and
  in \<^verbatim>\<open>start_thinking\<close>.\<close>

definition Thread_dtor :: "search_fn \<Rightarrow> Thread \<Rightarrow> fault + Thread" where
  "Thread_dtor search th =
     (if searching th then Inl AssertionFailure
      else or_blocks (join search (signal_exit th)))"

text \<open>\<^verbatim>\<open>Thread::clear\<close>. The two outer loops run over \<^verbatim>\<open>{false, true}\<close> and
  \<^verbatim>\<open>{NoCaptures, Captures}\<close>; the inner ones fill every table of that plane with -71.\<close>

definition Thread_clear :: "value_consts \<Rightarrow> Thread \<Rightarrow> Thread" where
  "Thread_clear c th =
     th\<lparr>counterMoves := (\<lambda>_. MOVE_NONE c),
        mainHistory := (\<lambda>_. 0),
        captureHistory := (\<lambda>_. 0),
        continuationHistory :=
          fold (\<lambda>inCheck ch.
                  fold (\<lambda>ct ch'. ch'(inCheck := (ch' inCheck)(ct := (\<lambda>to h k. - 71))))
                    [NoCaptures, Captures] ch)
            [False, True] (continuationHistory th)\<rparr>"

section \<open>\<^verbatim>\<open>ThreadPool\<close>\<close>

text \<open>
  Modelled from the spec: \<^verbatim>\<open>Search::LimitsType\<close> (\<^verbatim>\<open>search.h\<close> is not among the sources): the
  optional allow-list of root moves, \<^verbatim>\<open>searchmoves\<close>, and, opaque, everything else.
\<close>

record LimitsType =
  searchmoves :: "Move list"
  other_limits :: nat

text \<open>
  The calls a pool makes into its collaborators, in the order made, each with the
  arguments it is made with: \<^verbatim>\<open>_tt->resize(Hash, this)\<close>, \<^verbatim>\<open>_search->init(this)\<close> (the pool
  is passed as the thread vector it holds at that moment) and
  \<^verbatim>\<open>_tb->rank_root_moves(pos, rootMoves)\<close>.
\<close>

datatype collaborator_call =
    TT_resize nat "Thread list"
  | Search_init "Thread list"
  | TB_rank_root_moves Position "RootMove list"

record ThreadPool =
  threads :: "Thread list"
  stop :: bool
  increaseDepth :: bool
  setupStates :: StateListPtr
  limits :: LimitsType
  calls :: "collaborator_call list"

text \<open>
  What the pool's code takes from outside \<^verbatim>\<open>thread.cpp\<close>: the constants, \<^verbatim>\<open>search()\<close>,
  the legal-move generator \<^verbatim>\<open>MoveList<LEGAL>(pos)\<close>, the constructor \<^verbatim>\<open>RootMove(m)\<close>, what
  \<^verbatim>\<open>rank_root_moves\<close> leaves in the list it is given, the \<^verbatim>\<open>Hash\<close> option, the
  indeterminate contents of newly allocated thread objects, and, for the thread built in
  slot \<open>i\<close>, whether the scheduler lets its worker read \<^verbatim>\<open>_threads\<close> before the constructor
  has stored it.
\<close>

record env =
  vals :: value_consts
  search_body :: search_fn
  legal_moves :: "Position \<Rightarrow> Move list"
  new_RootMove :: "Move \<Rightarrow> RootMove"
  rank_root_moves :: "Position \<Rightarrow> RootMove list \<Rightarrow> RootMove list"
  option_Hash :: nat
  raw_thread :: "nat \<Rightarrow> Thread"
  raw_main :: MainThread
  worker_reads_early :: "nat \<Rightarrow> bool"

text \<open>\<^verbatim>\<open>while (threads.size() > 0) threads.pop_back();\<close> on the vector given back to front:
  each \<^verbatim>\<open>pop_back\<close> runs the destructor of the last thread.\<close>

fun pop_all :: "search_fn \<Rightarrow> Thread list \<Rightarrow> fault + Thread list" where
  "pop_all search [] = Inr []"
| "pop_all search (th # rest) = and_then (Thread_dtor search th) (\<lambda>_. pop_all search rest)"

text \<open>\<^verbatim>\<open>while (threads.size() < requested) threads.push_back(make_unique<Thread>(this, threads.size()));\<close>\<close>

function push_threads :: "env \<Rightarrow> nat \<Rightarrow> Thread list \<Rightarrow> fault + Thread list" where
  "push_threads e requested ths =
     (if length ths < requested
      then and_then (Thread_ctor (search_body e) (worker_reads_early e (length ths))
                       (raw_thread e (length ths)) (length ths))
             (\<lambda>th. push_threads e requested (ths @ [th]))
      else Inr ths)"
  by pat_completeness auto
termination
  by (relation "measure (\<lambda>(e, requested, ths). requested - length ths)") auto

declare push_threads.simps [simp del]

text \<open>\<^verbatim>\<open>ThreadPool::clear\<close>. \<^verbatim>\<open>main()\<close> is \<^verbatim>\<open>static_cast<MainThread*>(threads.front())\<close>:
  undefined on an empty vector and on a first element that is no \<^verbatim>\<open>MainThread\<close>.\<close>

definition ThreadPool_clear :: "value_consts \<Rightarrow> ThreadPool \<Rightarrow> fault + ThreadPool" where
  "ThreadPool_clear c p =
     (case map (Thread_clear c) (threads p) of
        [] \<Rightarrow> Inl UndefinedBehaviour
      | m # rest \<Rightarrow>
          (case main_part m of
             None \<Rightarrow> Inl UndefinedBehaviour
           | Some mp \<Rightarrow>
               Inr (p\<lparr>threads :=
                 m\<lparr>main_part := Some (mp\<lparr>callsCnt := 0,
                                          bestPreviousScore := VALUE_INFINITE c,
                                          bestPreviousAverageScore := VALUE_INFINITE c,
                                          previousTimeReduction := 1\<rparr>)\<rparr> # rest\<rparr>)))"

text \<open>The first block of \<^verbatim>\<open>ThreadPool::set\<close>: wait for the main thread, then destroy every
  thread, last one first.\<close>

definition destroy_threads :: "search_fn \<Rightarrow> Thread list \<Rightarrow> fault + Thread list" where
  "destroy_threads search ths =
     (case ths of
        [] \<Rightarrow> Inr []
      | m # rest \<Rightarrow>
          and_then (or_blocks (Thread_wait_for_search_finished search m))
            (\<lambda>m'. pop_all search (rev (m' # rest))))"

text \<open>\<^verbatim>\<open>ThreadPool::set\<close>.\<close>

definition ThreadPool_set :: "env \<Rightarrow> nat \<Rightarrow> ThreadPool \<Rightarrow> fault + ThreadPool" where
  "ThreadPool_set e requested p =
     and_then (destroy_threads (search_body e) (threads p)) (\<lambda>none.
       if requested > 0
       then and_then (MainThread_ctor (search_body e) (worker_reads_early e 0)
                        (raw_thread e 0) (raw_main e) 0) (\<lambda>m.
            and_then (push_threads e requested (none @ [m])) (\<lambda>ths.
            and_then (ThreadPool_clear (vals e) (p\<lparr>threads := ths\<rparr>)) (\<lambda>p'.
              Inr (p'\<lparr>calls := calls p' @ [TT_resize (option_Hash e) (threads p'),
                                            Search_init (threads p')]\<rparr>))))
       else Inr (p\<lparr>threads := none\<rparr>))"

text \<open>The root move list of \<^verbatim>\<open>start_thinking\<close>: the legal moves, in generation order, that
  the allow-list admits (\<^verbatim>\<open>searchmoves.empty() || std::count(..., m)\<close>).\<close>

definition build_rootMoves :: "env \<Rightarrow> Position \<Rightarrow> LimitsType \<Rightarrow> RootMove list" where
  "build_rootMoves e pos lmts =
     map (new_RootMove e)
       (filter (\<lambda>m. searchmoves lmts = [] \<or> count_list (searchmoves lmts) m \<noteq> 0)
          (legal_moves e pos))"

text \<open>The body of the loop of \<^verbatim>\<open>start_thinking\<close> over the threads.\<close>

definition setup_thread :: "Position \<Rightarrow> RootMove list \<Rightarrow> StateInfo \<Rightarrow> Thread \<Rightarrow> Thread" where
  "setup_thread pos rms back th =
     th\<lparr>nodes := 0, tbHits := 0, nmpMinPly := 0, bestMoveChanges := 0,
        rootDepth := 0, completedDepth := 0,
        rootMoves := rms,
        rootPos := \<lparr>fen = fen pos, is_chess960 = is_chess960 pos\<rparr>,
        rootState := back\<rparr>"

text \<open>
  \<^verbatim>\<open>ThreadPool::start_thinking\<close>. \<open>states\<close> is the caller's handle, passed by reference:
  the result holds the pool and the handle as the call leaves them. \<^verbatim>\<open>setupStates->back()\<close>
  is undefined on an empty list of states.
\<close>

definition ThreadPool_start_thinking ::
    "env \<Rightarrow> Position \<Rightarrow> StateListPtr \<Rightarrow> LimitsType \<Rightarrow> bool \<Rightarrow> ThreadPool
       \<Rightarrow> fault + (ThreadPool \<times> StateListPtr)" where
  "ThreadPool_start_thinking e pos states lmts ponderMode p =
     (case threads p of
        [] \<Rightarrow> Inl UndefinedBehaviour
      | m # rest \<Rightarrow>
          and_then (or_blocks (Thread_wait_for_search_finished (search_body e) m)) (\<lambda>m1.
            case main_part m1 of
              None \<Rightarrow> Inl UndefinedBehaviour
            | Some mp \<Rightarrow>
                let m2 = m1\<lparr>main_part := Some (mp\<lparr>stopOnPonderhit := False, ponder := ponderMode\<rparr>)\<rparr>;
                    rms0 = build_rootMoves e pos lmts;
                    ranked = rms0 \<noteq> [];
                    rms = (if ranked then rank_root_moves e pos rms0 else rms0);
                    calls' = (if ranked then calls p @ [TB_rank_root_moves pos rms0] else calls p)
                in if states = None \<and> setupStates p = None then Inl AssertionFailure
                   else
                     let setup = (if states \<noteq> None then states else setupStates p);
                         states' = (if states \<noteq> None then None else states)
                     in if the setup = [] then Inl UndefinedBehaviour
                        else
                          (case map (setup_thread pos rms (last (the setup))) (m2 # rest) of
                             [] \<Rightarrow> Inl UndefinedBehaviour
                           | m3 # rest' \<Rightarrow>
                               Inr (p\<lparr>threads := Thread_start_searching m3 # rest',
                                      stop := False, increaseDepth := True,
                                      setupStates := setup, limits := lmts,
                                      calls := calls'\<rparr>, states'))))"

text \<open>\<^verbatim>\<open>ThreadPool::start_searching\<close>: every thread but \<^verbatim>\<open>threads.front()\<close>.\<close>

definition ThreadPool_start_searching :: "ThreadPool \<Rightarrow> ThreadPool" where
  "ThreadPool_start_searching p =
     p\<lparr>threads := (case threads p of [] \<Rightarrow> [] | m # rest \<Rightarrow> m # map Thread_start_searching rest)\<rparr>"

fun wait_each :: "search_fn \<Rightarrow> Thread list \<Rightarrow> fault + Thread list" where
  "wait_each search [] = Inr []"
| "wait_each search (th # rest) =
     and_then (or_blocks (Thread_wait_for_search_finished search th)) (\<lambda>th'.
       and_then (wait_each search rest) (\<lambda>rest'. Inr (th' # rest')))"

text \<open>\<^verbatim>\<open>ThreadPool::wait_for_search_finished\<close>: every thread but \<^verbatim>\<open>threads.front()\<close>.\<close>

definition ThreadPool_wait_for_search_finished :: "search_fn \<Rightarrow> ThreadPool \<Rightarrow> fault + ThreadPool" where
  "ThreadPool_wait_for_search_finished search p =
     (case threads p of
        [] \<Rightarrow> Inr p
      | m # rest \<Rightarrow> and_then (wait_each search rest) (\<lambda>rest'. Inr (p\<lparr>threads := m # rest'\<rparr>)))"

section \<open>The selection of the best thread as the specification words it\<close>

text \<open>Step 1: the minimum of the first-root-move scores over all workers.\<close>

definition spec_minScore :: "Thread list \<Rightarrow> Value" where
  "spec_minScore ths = Min (root_score ` set ths)"

text \<open>Step 2: \<open>value(th) = (th.score - minScore + 14) * th.completedDepth\<close>.\<close>

definition spec_value :: "Thread list \<Rightarrow> Thread \<Rightarrow> int" where
  "spec_value ths th = (root_score th - spec_minScore ths + 14) * completedDepth th"

text \<open>Step 3: the vote total of a move is the sum of \<open>value(th)\<close> over the workers whose
  first PV move it is.\<close>

definition spec_votes :: "Thread list \<Rightarrow> Move \<Rightarrow> int" where
  "spec_votes ths m = sum_list (map (spec_value ths) (filter (\<lambda>th. first_move th = m) ths))"

text \<open>Step 5, one worker against the current best.\<close>

definition spec_replaces :: "value_consts \<Rightarrow> Thread list \<Rightarrow> Thread \<Rightarrow> Thread \<Rightarrow> bool" where
  "spec_replaces c ths best th =
     (if \<bar>root_score best\<bar> \<ge> VALUE_TB_WIN_IN_MAX_PLY c
      then root_score th > root_score best
      else (root_score th \<ge> VALUE_TB_WIN_IN_MAX_PLY c
            \<or> (root_score th > VALUE_TB_LOSS_IN_MAX_PLY c
                \<and> (spec_votes ths (first_move th) > spec_votes ths (first_move best)
                    \<or> (spec_votes ths (first_move th) = spec_votes ths (first_move best)
                        \<and> spec_value ths th * (if pv_size th > 2 then 1 else 0)
                           > spec_value ths best * (if pv_size best > 2 then 1 else 0))))))"

text \<open>Steps 4 to 6: start from slot 0 and scan the workers in pool order.\<close>

fun spec_scan :: "value_consts \<Rightarrow> Thread list \<Rightarrow> nat \<Rightarrow> nat list \<Rightarrow> nat" where
  "spec_scan c ths best [] = best"
| "spec_scan c ths best (i # slots) =
     spec_scan c ths (if spec_replaces c ths (ths ! best) (ths ! i) then i else best) slots"

definition spec_best_thread :: "value_consts \<Rightarrow> Thread list \<Rightarrow> nat" where
  "spec_best_thread c ths = spec_scan c ths 0 [0..<length ths]"

section \<open>Session start-up: the one-time initialisation\<close>

text \<open>
  The guarded block of \<^verbatim>\<open>stockfish_thread_wrapper\<close>:
  \<^verbatim>\<open>{ unique_lock lock(mtx); if (!bitboards_initialized) Bitboards::init(); bitboards_initialized = true; }\<close>
  with the two function-level statics \<^verbatim>\<open>mtx\<close> and \<^verbatim>\<open>bitboards_initialized\<close> shared by all
  sessions of the process. A session is before the lock, at the test of the flag, at the
  call of \<^verbatim>\<open>Bitboards::init\<close>, at the assignment of the flag, at the release of the lock
  (the end of the block), or past the block.
\<close>

datatype session_pc = BeforeLock | AtTest | AtInit | AtAssign | AtUnlock | PastBlock

text \<open>\<open>init_count\<close> counts the executions of \<^verbatim>\<open>Bitboards::init\<close>; \<open>mtx\<close> is the session
  that holds the mutex, if any.\<close>

record process =
  mtx :: "nat option"
  bitboards_initialized :: bool
  init_count :: nat
  sessions :: "session_pc list"

definition start_sessions :: "nat \<Rightarrow> process" where
  "start_sessions n =
     \<lparr>mtx = None, bitboards_initialized = False, init_count = 0,
      sessions = replicate n BeforeLock\<rparr>"

text \<open>The scheduler lets session \<open>i\<close> run its next statement. A session that waits for a
  held mutex, or is past the block, leaves the state as it is.\<close>

definition session_step :: "nat \<Rightarrow> process \<Rightarrow> process" where
  "session_step i s =
     (if i \<ge> length (sessions s) then s
      else case sessions s ! i of
        BeforeLock \<Rightarrow>
          (if mtx s = None then s\<lparr>mtx := Some i, sessions := (sessions s)[i := AtTest]\<rparr> else s)
      | AtTest \<Rightarrow>
          (if \<not> bitboards_initialized s then s\<lparr>sessions := (sessions s)[i := AtInit]\<rparr>
           else s\<lparr>sessions := (sessions s)[i := AtAssign]\<rparr>)
      | AtInit \<Rightarrow> s\<lparr>init_count := init_count s + 1, sessions := (sessions s)[i := AtAssign]\<rparr>
      | AtAssign \<Rightarrow> s\<lparr>bitboards_initialized := True, sessions := (sessions s)[i := AtUnlock]\<rparr>
      | AtUnlock \<Rightarrow> s\<lparr>mtx := None, sessions := (sessions s)[i := PastBlock]\<rparr>
      | PastBlock \<Rightarrow> s)"

text \<open>An execution of the process: the sessions move in the order of a schedule.\<close>

definition run_schedule :: "nat list \<Rightarrow> process \<Rightarrow> process" where
  "run_schedule schedule s = fold session_step schedule s"

section \<open>\<^verbatim>\<open>pipe_wrapper\<close>: descriptors and status\<close>

text \<open>
  \<^verbatim>\<open>basic_filebuf2\<close>: the descriptor it holds in \<^verbatim>\<open>__fd_\<close>, 0 for none. The operations
  below act on the buffer and on the set of descriptors that are open in the process.
\<close>

type_synonym filebuf2 = nat

definition filebuf2_is_open :: "filebuf2 \<Rightarrow> bool" where
  "filebuf2_is_open b = (b \<noteq> 0)"

text \<open>\<^verbatim>\<open>basic_filebuf2::open(fd)\<close>: closes a descriptor it already holds, then takes \<open>fd\<close>.\<close>

definition filebuf2_open :: "nat \<Rightarrow> filebuf2 \<times> nat set \<Rightarrow> filebuf2 \<times> nat set" where
  "filebuf2_open fd bo = (case bo of (b, opn) \<Rightarrow> (fd, if b \<noteq> 0 then opn - {b} else opn))"

text \<open>\<^verbatim>\<open>basic_filebuf2::close()\<close>, which is also all the destructor does.\<close>

definition filebuf2_close :: "filebuf2 \<times> nat set \<Rightarrow> filebuf2 \<times> nat set" where
  "filebuf2_close bo = (case bo of (b, opn) \<Rightarrow> if b \<noteq> 0 then (0, opn - {b}) else (b, opn))"

definition filebuf2_dtor :: "filebuf2 \<Rightarrow> nat set \<Rightarrow> nat set" where
  "filebuf2_dtor b opn = snd (filebuf2_close (b, opn))"

text \<open>What the operating system answers: the two descriptors of each \<^verbatim>\<open>pipe\<close> call
  (\<open>None\<close> when it fails) and whether \<^verbatim>\<open>pthread_create\<close> succeeds. A failing
  \<^verbatim>\<open>pthread_join\<close> only prints a message and is not kept.\<close>

record os_answers =
  pipe_in_result :: "(nat \<times> nat) option"
  pipe_out_result :: "(nat \<times> nat) option"
  thread_created :: bool

text \<open>The descriptors of a session: \<^verbatim>\<open>stockfish_thread_wrapper\<close> opens \<^verbatim>\<open>fin\<close> on \<^verbatim>\<open>pipe_in\<close> and
  \<^verbatim>\<open>fout\<close> on \<^verbatim>\<open>pipe_out\<close>; both are destroyed when it returns, \<^verbatim>\<open>fout\<close> first.\<close>

definition session_descriptors :: "nat \<Rightarrow> nat \<Rightarrow> nat set \<Rightarrow> nat set" where
  "session_descriptors pipe_in pipe_out opn =
     (let fin = filebuf2_open pipe_in (0, opn);
          fout = filebuf2_open pipe_out (0, snd fin)
      in filebuf2_dtor (fst fin) (filebuf2_dtor (fst fout) (snd fout)))"

text \<open>
  \<^verbatim>\<open>pipe_wrapper\<close>: the status it returns and the descriptors, of those it has opened,
  that are still open when it returns. The streams \<^verbatim>\<open>file_in\<close> and \<^verbatim>\<open>file_out\<close> are locals
  declared after both \<^verbatim>\<open>pipe\<close> calls, so their destructors run on every later return,
  \<^verbatim>\<open>file_out\<close> first.
\<close>

definition pipe_wrapper :: "os_answers \<Rightarrow> int \<times> nat set" where
  "pipe_wrapper os =
     (case pipe_in_result os of
        None \<Rightarrow> (1, {})
      | Some (in_r, in_w) \<Rightarrow>
          (case pipe_out_result os of
             None \<Rightarrow> (1, {in_r, in_w})
           | Some (out_r, out_w) \<Rightarrow>
               let file_in = filebuf2_open in_w (0, {in_r, in_w, out_r, out_w});
                   file_out = filebuf2_open out_r (0, snd file_in);
                   opn = snd file_out
               in if \<not> filebuf2_is_open (fst file_in)
                  then (1, filebuf2_dtor (fst file_in) (filebuf2_dtor (fst file_out) opn))
                  else if \<not> filebuf2_is_open (fst file_out)
                  then (1, filebuf2_dtor (fst file_in) (filebuf2_dtor (fst file_out) opn))
                  else if \<not> thread_created os
                  then (1, filebuf2_dtor (fst file_in) (filebuf2_dtor (fst file_out) opn))
                  else
                    let opn1 = session_descriptors in_r out_w opn;
                        file_out' = filebuf2_close (fst file_out, opn1);
                        file_in' = filebuf2_close (fst file_in, snd file_out')
                    in (0, filebuf2_dtor (fst file_in') (filebuf2_dtor (fst file_out') (snd file_in')))))"

section \<open>Predicates and values used to state the properties\<close>

subsection \<open>Threads and pools\<close>

text \<open>An external \<^verbatim>\<open>search()\<close> cannot change the dynamic type of the object it runs on.\<close>

definition keeps_dynamic_type :: "search_fn \<Rightarrow> bool" where
  "keeps_dynamic_type s =
     (\<forall>th th'. s th = Some th' \<longrightarrow> (main_part th' = None) = (main_part th = None))"

text \<open>A thread that sleeps in \<^verbatim>\<open>idle_loop\<close> with no search requested.\<close>

definition parked :: "Thread \<Rightarrow> bool" where
  "parked th = (\<not> searching th \<and> worker th = Parked)"

text \<open>Exactly the first slot of the vector holds a \<^verbatim>\<open>MainThread\<close>.\<close>

definition one_main_at_front :: "Thread list \<Rightarrow> bool" where
  "one_main_at_front ths =
     (case ths of [] \<Rightarrow> True
      | m # rest \<Rightarrow> main_part m \<noteq> None \<and> list_all (\<lambda>th. main_part th = None) rest)"

text \<open>The baseline of the four statistics tables after a new-game reset.\<close>

definition at_baseline :: "value_consts \<Rightarrow> Thread \<Rightarrow> bool" where
  "at_baseline c th =
     (counterMoves th = (\<lambda>_. MOVE_NONE c) \<and> mainHistory th = (\<lambda>_. 0)
      \<and> captureHistory th = (\<lambda>_. 0) \<and> continuationHistory th = (\<lambda>_ _ _ _ _. - 71))"

text \<open>The iteration-tracking members of the main thread after a new-game reset.\<close>

definition main_reset :: "value_consts \<Rightarrow> Thread \<Rightarrow> bool" where
  "main_reset c m =
     (case main_part m of
        None \<Rightarrow> False
      | Some mp \<Rightarrow> callsCnt mp = 0 \<and> bestPreviousScore mp = VALUE_INFINITE c
          \<and> bestPreviousAverageScore mp = VALUE_INFINITE c \<and> previousTimeReduction mp = 1)"

text \<open>The counters \<^verbatim>\<open>start_thinking\<close> zeroes in every worker.\<close>

definition counters_reset :: "Thread \<Rightarrow> bool" where
  "counters_reset th =
     (nodes th = 0 \<and> tbHits th = 0 \<and> bestMoveChanges th = 0 \<and> nmpMinPly th = 0
      \<and> rootDepth th = 0 \<and> completedDepth th = 0)"

text \<open>The objects the two constructors leave behind when no worker reads \<^verbatim>\<open>_threads\<close> too
  early, and the vector \<^verbatim>\<open>set(n)\<close> builds from them for \<open>n > 0\<close>.\<close>

definition no_early_read :: "env \<Rightarrow> nat \<Rightarrow> bool" where
  "no_early_read e n = (\<forall>i < n. \<not> worker_reads_early e i)"

definition new_thread :: "env \<Rightarrow> nat \<Rightarrow> Thread" where
  "new_thread e n =
     (raw_thread e n)\<lparr>idx := n, exit := False, searching := False, worker := Parked,
                      threads_stored := True, rootMoves := [], main_part := None\<rparr>"

definition new_main :: "env \<Rightarrow> Thread" where
  "new_main e =
     (raw_thread e 0)\<lparr>idx := 0, exit := False, searching := False, worker := Parked,
                      threads_stored := True, rootMoves := [], main_part := Some (raw_main e)\<rparr>"

definition cleared_main :: "value_consts \<Rightarrow> Thread \<Rightarrow> MainThread \<Rightarrow> Thread" where
  "cleared_main c m mp =
     (Thread_clear c m)\<lparr>main_part := Some (mp\<lparr>callsCnt := 0,
                                          bestPreviousScore := VALUE_INFINITE c,
                                          bestPreviousAverageScore := VALUE_INFINITE c,
                                          previousTimeReduction := 1\<rparr>)\<rparr>"

definition fresh_pool_threads :: "env \<Rightarrow> nat \<Rightarrow> Thread list" where
  "fresh_pool_threads e n =
     cleared_main (vals e) (new_main e) (raw_main e)
       # map (Thread_clear (vals e) \<circ> new_thread e) [1..<n]"

text \<open>The root move list every worker receives, and the pool \<^verbatim>\<open>start_thinking\<close> leaves
  behind when the wait on the main thread has returned \<open>m1\<close>.\<close>

definition ranked_rootMoves :: "env \<Rightarrow> Position \<Rightarrow> LimitsType \<Rightarrow> RootMove list" where
  "ranked_rootMoves e pos lmts =
     (if build_rootMoves e pos lmts \<noteq> [] then rank_root_moves e pos (build_rootMoves e pos lmts)
      else build_rootMoves e pos lmts)"

definition thinking_pool ::
  "env \<Rightarrow> Position \<Rightarrow> LimitsType \<Rightarrow> bool \<Rightarrow> ThreadPool \<Rightarrow> Thread \<Rightarrow> MainThread \<Rightarrow> Thread list
     \<Rightarrow> StateInfo list \<Rightarrow> ThreadPool" where
  "thinking_pool e pos lmts ponderMode p m1 mp rest sts =
     p\<lparr>threads :=
         Thread_start_searching (setup_thread pos (ranked_rootMoves e pos lmts) (last sts)
           (m1\<lparr>main_part := Some (mp\<lparr>stopOnPonderhit := False, ponder := ponderMode\<rparr>)\<rparr>))
         # map (setup_thread pos (ranked_rootMoves e pos lmts) (last sts)) rest,
       stop := False, increaseDepth := True, setupStates := Some sts, limits := lmts,
       calls := (if build_rootMoves e pos lmts \<noteq> []
                 then calls p @ [TB_rank_root_moves pos (build_rootMoves e pos lmts)]
                 else calls p)\<rparr>"

text \<open>The number of calls of \<^verbatim>\<open>rank_root_moves\<close> in a trace, and in the trace a call of
  \<^verbatim>\<open>start_thinking\<close> leaves.\<close>

fun is_rank_call :: "collaborator_call \<Rightarrow> bool" where
  "is_rank_call (TB_rank_root_moves pos rms) = True"
| "is_rank_call other = False"

definition rank_calls :: "collaborator_call list \<Rightarrow> nat" where
  "rank_calls cs = length (filter is_rank_call cs)"

definition rank_calls_after :: "fault + (ThreadPool \<times> StateListPtr) \<Rightarrow> nat option" where
  "rank_calls_after r = (case r of Inl f \<Rightarrow> None | Inr (p', s') \<Rightarrow> Some (rank_calls (calls p')))"

subsection \<open>The start-up guard\<close>

definition inside_block :: "session_pc \<Rightarrow> bool" where
  "inside_block pc = (pc = AtTest \<or> pc = AtInit \<or> pc = AtAssign \<or> pc = AtUnlock)"

text \<open>
  What holds in every state the sessions can reach: the holder of the mutex is a
  session, a session is inside the block exactly when it holds the mutex, the count of
  initialisations is 1 once the flag is set or a session stands right after the call
  and 0 otherwise, a session about to call \<^verbatim>\<open>Bitboards::init\<close> has seen the flag unset,
  and the flag is set once a session has reached the end of the block.
\<close>

definition guard_invariant :: "process \<Rightarrow> bool" where
  "guard_invariant s =
     ((\<forall>i. mtx s = Some i \<longrightarrow> i < length (sessions s))
      \<and> (\<forall>i < length (sessions s). inside_block (sessions s ! i) = (mtx s = Some i))
      \<and> init_count s
           = (if bitboards_initialized s \<or> (\<exists>j < length (sessions s). sessions s ! j = AtAssign)
              then 1 else 0)
      \<and> (\<forall>i < length (sessions s). sessions s ! i = AtInit \<longrightarrow> \<not> bitboards_initialized s)
      \<and> (\<forall>i < length (sessions s). sessions s ! i = AtUnlock \<or> sessions s ! i = PastBlock
            \<longrightarrow> bitboards_initialized s))"

subsection \<open>Concrete inputs\<close>

text \<open>A parked worker in slot \<open>i\<close> whose first root move has score \<open>s\<close> and variation
  \<open>line\<close> and whose completed depth is \<open>d\<close>; slot 0 is the main thread.\<close>

definition idle_snapshot :: "nat \<Rightarrow> Value \<Rightarrow> Depth \<Rightarrow> Move list \<Rightarrow> Thread" where
  "idle_snapshot i s d line =
     \<lparr>idx = i, exit = False, searching = False, worker = Parked, threads_stored = True,
      nodes = 0, tbHits = 0, bestMoveChanges = 0, nmpMinPly = 0,
      rootPos = \<lparr>fen = [], is_chess960 = False\<rparr>, rootState = 0,
      rootMoves = [\<lparr>score = s, pv = line\<rparr>], rootDepth = d, completedDepth = d,
      counterMoves = (\<lambda>_. 0), mainHistory = (\<lambda>_. 0), captureHistory = (\<lambda>_. 0),
      continuationHistory = (\<lambda>_ _ _ _ _. 0),
      main_part = (if i = 0 then Some \<lparr>previousTimeReduction = 0, bestPreviousScore = 5,
                     bestPreviousAverageScore = 5, callsCnt = 3, stopOnPonderhit = True,
                     ponder = False\<rparr> else None)\<rparr>"

text \<open>Moves in the engine's encoding (64 * from + to).\<close>

definition e4 :: Move where "e4 = 796"
definition d4 :: Move where "d4 = 731"
definition e5 :: Move where "e5 = 3364"
definition d5 :: Move where "d5 = 3299"
definition Nf3 :: Move where "Nf3 = 405"

text \<open>The three-worker snapshot (score, depth, first move) = (100, 10, e4), (90, 12, e4),
  (50, 8, d4), with the rest of each principal variation left open.\<close>

definition three_workers :: "Move list \<Rightarrow> Move list \<Rightarrow> Move list \<Rightarrow> Thread list" where
  "three_workers r0 r1 r2 =
     [idle_snapshot 0 100 10 (e4 # r0), idle_snapshot 1 90 12 (e4 # r1),
      idle_snapshot 2 50 8 (d4 # r2)]"

text \<open>A pool of two workers with legal scores, the second with a completed depth far above
  \<^verbatim>\<open>MAX_PLY\<close>: (score, depth, first move) = (0, 1, e4), (30000, 100000, d4).\<close>

definition deep_pool :: "Thread list" where
  "deep_pool = [idle_snapshot 0 0 1 [e4], idle_snapshot 1 30000 100000 [d4]]"

text \<open>An environment: a search that returns at once, two legal moves in every position but
  the one whose FEN is \<open>''mate''\<close>, which has none, a ranking that keeps the list, and a
  scheduler under which no worker reads \<^verbatim>\<open>_threads\<close> too early.\<close>

definition demo_env :: env where
  "demo_env =
     \<lparr>vals = upstream_consts,
      search_body = (\<lambda>th. Some th),
      legal_moves = (\<lambda>pos. if fen pos = ''mate'' then [] else [e4, d4]),
      new_RootMove = (\<lambda>m. \<lparr>score = - 32001, pv = [m]\<rparr>),
      rank_root_moves = (\<lambda>pos rms. rms),
      option_Hash = 16,
      raw_thread = (\<lambda>i. (idle_snapshot i 7 7 [])
                     \<lparr>nodes := 99, searching := True, worker := InSearch\<rparr>),
      raw_main = \<lparr>previousTimeReduction = 0, bestPreviousScore = 5,
                  bestPreviousAverageScore = 5, callsCnt = 3, stopOnPonderhit = True,
                  ponder = True\<rparr>,
      worker_reads_early = (\<lambda>i. False)\<rparr>"

text \<open>The same environment with a scheduler that lets the worker of the thread built in
  slot \<open>k\<close> read \<^verbatim>\<open>_threads\<close> before the constructor has stored it.\<close>

definition racy_env :: "nat \<Rightarrow> env" where
  "racy_env k = demo_env\<lparr>worker_reads_early := (\<lambda>i. i = k)\<rparr>"

definition no_limits :: LimitsType where
  "no_limits = \<lparr>searchmoves = [], other_limits = 0\<rparr>"

definition empty_pool :: ThreadPool where
  "empty_pool =
     \<lparr>threads = [], stop = False, increaseDepth = False, setupStates = None,
      limits = no_limits, calls = []\<rparr>"

definition idle_pool :: ThreadPool where
  "idle_pool = empty_pool\<lparr>threads := [idle_snapshot 0 0 0 [], idle_snapshot 1 0 0 []]\<rparr>"

definition start_position :: Position where
  "start_position = \<lparr>fen = ''startpos'', is_chess960 = False\<rparr>"

definition mated_position :: Position where
  "mated_position = \<lparr>fen = ''mate'', is_chess960 = False\<rparr>"

text \<open>A schedule of ten sessions: all ten reach for the mutex, session 9 wins it and runs
  the block while others keep trying, then the rest pass through, two of them interleaved.\<close>

definition ten_schedule :: "nat list" where
  "ten_schedule =
     [9, 8, 7, 6, 5, 4, 3, 2, 1, 0, 9, 3, 9, 5, 9, 0, 9,
      0, 1, 0, 1, 0, 0, 1, 0, 1, 1, 1,
      2, 2, 2, 2, 2, 3, 3, 3, 3, 3, 4, 4, 4, 4, 4, 5, 5, 5, 5, 5,
      6, 6, 6, 6, 6, 7, 7, 7, 7, 7, 8, 8, 8, 8, 8]"

text \<open>Operating-system answers: the second \<^verbatim>\<open>pipe\<close> fails; \<^verbatim>\<open>pthread_create\<close> fails; all
  succeed.\<close>

definition os_second_pipe_fails :: os_answers where
  "os_second_pipe_fails =
     \<lparr>pipe_in_result = Some (3, 4), pipe_out_result = None, thread_created = True\<rparr>"

definition os_thread_fails :: os_answers where
  "os_thread_fails =
     \<lparr>pipe_in_result = Some (3, 4), pipe_out_result = Some (5, 6), thread_created = False\<rparr>"

definition os_all_succeed :: os_answers where
  "os_all_succeed =
     \<lparr>pipe_in_result = Some (3, 4), pipe_out_result = Some (5, 6), thread_created = True\<rparr>"

section \<open>The selection of the best thread\<close>

lemma int32_id: "- (2 ^ 31) \<le> x \<Longrightarrow> x < 2 ^ 31 \<Longrightarrow> int32 x = x"
  by (simp add: int32_def)

lemma int64_id: "- (2 ^ 63) \<le> x \<Longrightarrow> x < 2 ^ 63 \<Longrightarrow> int64 x = x"
  by (simp add: int64_def)

lemma fold_min_Min:
  "fold (\<lambda>th m. min m (f th)) ths (a::int) = (if ths = [] then a else min a (Min (f ` set ths)))"
proof (induction ths arbitrary: a)
  case Nil
  then show ?case by simp
next
  case (Cons th ths)
  show ?case
  proof (cases "ths = []")
    case True
    then show ?thesis by simp
  next
    case False
    then have "Min (f ` set (th # ths)) = min (f th) (Min (f ` set ths))"
      by simp
    with Cons False show ?thesis by (simp add: min.assoc)
  qed
qed

text \<open>The 64-bit totals are the exact sums as long as every summand lies in \<open>[0, B)\<close> and
  the bound \<open>B\<close> times the number of workers still to come does not pass \<open>2 ^ 63\<close>.\<close>

lemma fold_votes_sum:
  assumes "\<forall>th\<in>set ths. 0 \<le> h th \<and> h th < B"
    and "\<forall>m. 0 \<le> v0 m \<and> v0 m + int (length ths) * B \<le> 2 ^ 63"
  shows "fold (\<lambda>th votes. votes(g th := int64 (votes (g th) + h th))) ths v0 m
           = v0 m + sum_list (map h (filter (\<lambda>th. g th = m) ths))"
  using assms
proof (induction ths arbitrary: v0)
  case Nil
  then show ?case by simp
next
  case (Cons a ths)
  have ha: "0 \<le> h a" "h a < B" using Cons.prems(1) by simp_all
  have v0: "0 \<le> v0 k" for k
    using Cons.prems(2) by simp
  have E: "v0 k + B + int (length ths) * B \<le> 2 ^ 63" for k
    using Cons.prems(2) by (simp add: algebra_simps)
  have B: "0 \<le> int (length ths) * B"
    using ha by simp
  have room: "v0 (g a) + h a + int (length ths) * B \<le> 2 ^ 63"
    using E[of "g a"] ha(2) by linarith
  have "v0 (g a) + h a < 2 ^ 63"
    using E[of "g a"] ha B by linarith
  moreover have "- (2 ^ 63) \<le> v0 (g a) + h a"
    using v0[of "g a"] ha(1) by simp
  ultimately have wrap: "int64 (v0 (g a) + h a) = v0 (g a) + h a"
    by (intro int64_id)
  let ?v1 = "v0(g a := v0 (g a) + h a)"
  have v1: "\<forall>k. 0 \<le> ?v1 k \<and> ?v1 k + int (length ths) * B \<le> 2 ^ 63"
  proof
    fix k
    show "0 \<le> ?v1 k \<and> ?v1 k + int (length ths) * B \<le> 2 ^ 63"
    proof (cases "k = g a")
      case True
      then show ?thesis using v0[of "g a"] ha(1) room by simp
    next
      case False
      have "v0 k + int (length ths) * B \<le> 2 ^ 63"
        using E[of k] ha by linarith
      then show ?thesis using False v0[of k] by simp
    qed
  qed
  have rest: "\<forall>th\<in>set ths. 0 \<le> h th \<and> h th < B"
    using Cons.prems(1) by simp
  let ?F = "\<lambda>th votes. votes(g th := int64 (votes (g th) + h th))"
  have "fold ?F (a # ths) v0 m = fold ?F ths (v0(g a := int64 (v0 (g a) + h a))) m"
    by (simp only: fold_simps o_apply)
  also have "\<dots> = fold ?F ths ?v1 m"
    by (simp only: wrap)
  also have "\<dots> = ?v1 m + sum_list (map h (filter (\<lambda>th. g th = m) ths))"
    using Cons.IH[OF rest v1] .
  also have "\<dots> = v0 m + sum_list (map h (filter (\<lambda>th. g th = m) (a # ths)))"
    by simp
  finally show ?case .
qed

lemma fold_select_scan:
  assumes "\<And>i j. i < length ths \<Longrightarrow> j < length ths
             \<Longrightarrow> R (ths ! i) (ths ! j) = spec_replaces c ths (ths ! i) (ths ! j)"
    and "b < length ths" and "\<forall>i\<in>set slots. i < length ths"
  shows "fold (\<lambda>i best. if R (ths ! best) (ths ! i) then i else best) slots b
           = spec_scan c ths b slots"
  using assms(2,3)
proof (induction slots arbitrary: b)
  case Nil
  then show ?case by simp
next
  case (Cons i slots)
  have i: "i < length ths" using Cons.prems(2) by simp
  have "R (ths ! b) (ths ! i) = spec_replaces c ths (ths ! b) (ths ! i)"
    using assms(1)[OF Cons.prems(1) i] .
  moreover have "(if spec_replaces c ths (ths ! b) (ths ! i) then i else b) < length ths"
    using i Cons.prems(1) by simp
  ultimately show ?case
    using Cons.IH[of "if spec_replaces c ths (ths ! b) (ths ! i) then i else b"] Cons.prems(2)
    by simp
qed

lemma min_score_spec:
  assumes "ths \<noteq> []" and "\<forall>th\<in>set ths. root_score th \<le> VALUE_NONE c"
  shows "min_score c ths = spec_minScore ths"
proof -
  obtain th where th: "th \<in> set ths"
    using assms(1) by (cases ths) auto
  have "Min (root_score ` set ths) \<le> root_score th"
    using th by (intro Min_le) auto
  also have "\<dots> \<le> VALUE_NONE c"
    using th assms(2) by blast
  finally have "Min (root_score ` set ths) \<le> VALUE_NONE c" .
  then show ?thesis
    using assms(1) by (simp add: min_score_def spec_minScore_def fold_min_Min)
qed

lemma spec_scan_bound:
  "b < n \<Longrightarrow> \<forall>i\<in>set slots. i < n \<Longrightarrow> spec_scan c ths b slots < n"
  by (induction slots arbitrary: b) auto

text \<open>On scores within \<open>[-V, V]\<close> and depths within \<open>[0, D]\<close> with \<open>(2V + 14) D\<close> below
  \<open>2 ^ 31\<close>, no operation of \<open>thread_value\<close> wraps, and the value lies in \<open>[0, 2 ^ 31)\<close> when
  the score is not below \<open>minScore\<close>.\<close>

lemma thread_value_exact:
  assumes "\<bar>root_score th\<bar> \<le> V" and "\<bar>minScore\<bar> \<le> V" and "minScore \<le> root_score th"
    and "0 \<le> completedDepth th" and "completedDepth th \<le> D"
    and "0 < D" and "(2 * V + 14) * D < 2 ^ 31"
  shows "thread_value minScore th = (root_score th - minScore + 14) * completedDepth th"
    and "0 \<le> thread_value minScore th" and "thread_value minScore th < 2 ^ 31"
proof -
  let ?d = "root_score th - minScore"
  have d: "0 \<le> ?d" "?d + 14 \<le> 2 * V + 14"
    using assms(1,2,3) by simp_all
  have "(2 * V + 14) * 1 \<le> (2 * V + 14) * D"
    using d assms(6) by (intro mult_left_mono) simp_all
  then have "2 * V + 14 \<le> (2 * V + 14) * D"
    by (simp only: mult_1_right)
  then have small: "2 * V + 14 < 2 ^ 31"
    using assms(7) by linarith
  have s1: "int32 ?d = ?d"
    using d small by (intro int32_id) simp_all
  have s2: "int32 (?d + 14) = ?d + 14"
    using d small by (intro int32_id) simp_all
  have "(?d + 14) * completedDepth th \<le> (2 * V + 14) * D"
    using d assms(4,5) by (intro mult_mono) simp_all
  then have p: "(?d + 14) * completedDepth th < 2 ^ 31"
    using assms(7) by simp
  have p0: "0 \<le> (?d + 14) * completedDepth th"
    using d assms(4) by simp
  have s3: "int32 ((?d + 14) * completedDepth th) = (?d + 14) * completedDepth th"
    using p p0 by (intro int32_id) simp_all
  show "thread_value minScore th = (root_score th - minScore + 14) * completedDepth th"
    by (simp add: thread_value_def s1 s2 s3)
  then show "0 \<le> thread_value minScore th" "thread_value minScore th < 2 ^ 31"
    using p p0 by simp_all
qed

lemma idle_snapshot_reads [simp]:
  "root_score (idle_snapshot i s d line) = s"
  "first_move (idle_snapshot i s d line) = hd line"
  "pv_size (idle_snapshot i s d line) = length line"
  "completedDepth (idle_snapshot i s d line) = d"
  "rootMoves (idle_snapshot i s d line) = [\<lparr>score = s, pv = line\<rparr>]"
  "searching (idle_snapshot i s d line) = False"
  "worker (idle_snapshot i s d line) = Parked"
  "main_part (idle_snapshot i s d line) = None \<longleftrightarrow> i \<noteq> 0"
  by (simp_all add: idle_snapshot_def root_score_def first_move_def pv_size_def)

text \<open>
  Claim C1, as amended. For every non-empty pool of fewer than \<open>2 ^ 32\<close> workers in which
  each worker has a first root move with a non-empty principal variation, a score of
  absolute value at most \<^verbatim>\<open>VALUE_NONE\<close> and a completed depth between 0 and \<^verbatim>\<open>MAX_PLY\<close>, the
  constants being such that \<open>(2 * VALUE_NONE + 14) * MAX_PLY\<close> fits a 32-bit \<^verbatim>\<open>int\<close>,
  \<open>get_best_thread\<close> follows the five steps: \<open>minScore\<close> is the minimum of the
  first-root-move scores, the value of a worker is
  \<open>(score - minScore + 14) * completedDepth\<close>, the vote total of a move is the sum of the
  values of the workers whose first PV move it is, and the result is the slot found by
  scanning the workers in pool order from slot 0, a worker replacing the current best
  under exactly the stated condition.
\<close>

theorem get_best_thread_five_steps:
  assumes nonempty: "ths \<noteq> []"
    and has_pv: "\<forall>th\<in>set ths. rootMoves th \<noteq> [] \<and> pv (hd (rootMoves th)) \<noteq> []"
    and scores: "\<forall>th\<in>set ths. \<bar>root_score th\<bar> \<le> VALUE_NONE c"
    and depths: "\<forall>th\<in>set ths. 0 \<le> completedDepth th \<and> completedDepth th \<le> MAX_PLY c"
    and fits: "0 < MAX_PLY c" "(2 * VALUE_NONE c + 14) * MAX_PLY c < 2 ^ 31"
    and size: "length ths < 2 ^ 32"
  shows "min_score c ths = spec_minScore ths
       \<and> (\<forall>th\<in>set ths. thread_value (min_score c ths) th = spec_value ths th)
       \<and> (\<forall>m. cast_votes (min_score c ths) ths m = spec_votes ths m)
       \<and> get_best_thread c ths = Inr (spec_best_thread c ths)
       \<and> spec_best_thread c ths < length ths"
proof -
  let ?ms = "spec_minScore ths"
  have ms: "min_score c ths = ?ms"
    using nonempty scores by (intro min_score_spec) auto
  have fin: "finite (root_score ` set ths)" "root_score ` set ths \<noteq> {}"
    using nonempty by simp_all
  have "?ms \<in> root_score ` set ths"
    unfolding spec_minScore_def using fin by (rule Min_in)
  then have ms_abs: "\<bar>?ms\<bar> \<le> VALUE_NONE c"
    using scores by auto
  have ms_le: "?ms \<le> root_score th" if "th \<in> set ths" for th
    unfolding spec_minScore_def using that fin(1) by (intro Min_le) auto
  have V0: "0 \<le> VALUE_NONE c"
    using ms_abs by linarith
  have "(2 * VALUE_NONE c + 14) * 1 \<le> (2 * VALUE_NONE c + 14) * MAX_PLY c"
    using V0 fits(1) by (intro mult_left_mono) simp_all
  then have "2 * VALUE_NONE c + 14 \<le> (2 * VALUE_NONE c + 14) * MAX_PLY c"
    by (simp only: mult_1_right)
  then have V31: "VALUE_NONE c < 2 ^ 31"
    using fits(2) V0 by linarith
  have tv: "thread_value ?ms th = spec_value ths th"
    and tv0: "0 \<le> thread_value ?ms th" and tv31: "thread_value ?ms th < 2 ^ 31"
    if "th \<in> set ths" for th
    using thread_value_exact[of th "VALUE_NONE c" ?ms "MAX_PLY c"]
      that scores depths ms_abs ms_le[OF that] fits
    by (simp_all add: spec_value_def)
  have room: "\<forall>m. 0 \<le> (0::int) \<and> 0 + int (length ths) * 2 ^ 31 \<le> 2 ^ 63"
  proof -
    have "int (length ths) \<le> 2 ^ 32"
      using size by simp
    then have "int (length ths) * 2 ^ 31 \<le> 2 ^ 32 * 2 ^ 31"
      by (intro mult_right_mono) simp_all
    then show ?thesis by simp
  qed
  have cv: "cast_votes (min_score c ths) ths m = spec_votes ths m" for m
  proof -
    have "cast_votes ?ms ths m
            = 0 + sum_list (map (thread_value ?ms) (filter (\<lambda>th. first_move th = m) ths))"
      unfolding cast_votes_def
      by (rule fold_votes_sum[where B = "2 ^ 31"]) (use tv0 tv31 room in auto)
    also have "map (thread_value ?ms) (filter (\<lambda>th. first_move th = m) ths)
                 = map (spec_value ths) (filter (\<lambda>th. first_move th = m) ths)"
      by (rule map_cong) (use tv in auto)
    finally show ?thesis
      by (simp add: ms spec_votes_def)
  qed
  have abs32: "int32 \<bar>root_score th\<bar> = \<bar>root_score th\<bar>" if "th \<in> set ths" for th
    using that scores V31 by (intro int32_id) auto
  have prod32: "int32 (thread_value ?ms th * of_bool (pv_size th > 2))
                  = spec_value ths th * (if pv_size th > 2 then 1 else 0)"
    if "th \<in> set ths" for th
  proof (cases "pv_size th > 2")
    case True
    have "int32 (thread_value ?ms th) = thread_value ?ms th"
      using tv0[OF that] tv31[OF that] by (intro int32_id) simp_all
    then show ?thesis using True tv[OF that] by simp
  next
    case False
    then show ?thesis by (simp add: int32_def)
  qed
  have rp: "replaces c (min_score c ths) (cast_votes (min_score c ths) ths) a b
              = spec_replaces c ths a b"
    if "a \<in> set ths" "b \<in> set ths" for a b
    unfolding replaces_def spec_replaces_def
    by (simp only: ms[symmetric] cv abs32[OF that(1)]
        prod32[OF that(1), unfolded ms[symmetric]] prod32[OF that(2), unfolded ms[symmetric]])
  have sel: "select_best c (min_score c ths) (cast_votes (min_score c ths) ths) ths
               = spec_best_thread c ths"
    unfolding select_best_def spec_best_thread_def
    by (rule fold_select_scan) (use nonempty rp in auto)
  have no_ub: "\<not> (ths = [] \<or> list_ex (\<lambda>th. rootMoves th = [] \<or> pv (hd (rootMoves th)) = []) ths)"
    using nonempty has_pv by (auto simp: list_ex_iff)
  have res: "get_best_thread c ths = Inr (spec_best_thread c ths)"
    unfolding get_best_thread_def using no_ub sel by (simp add: Let_def)
  have bound: "spec_best_thread c ths < length ths"
    unfolding spec_best_thread_def using nonempty by (intro spec_scan_bound) auto
  from ms tv cv res bound show ?thesis by (simp add: ms)
qed

theorem get_best_thread_five_steps_witness:
  "min_score upstream_consts (three_workers [e5, Nf3] [e5] [d5])
     = spec_minScore (three_workers [e5, Nf3] [e5] [d5])
   \<and> get_best_thread upstream_consts (three_workers [e5, Nf3] [e5] [d5])
     = Inr (spec_best_thread upstream_consts (three_workers [e5, Nf3] [e5] [d5]))
   \<and> spec_best_thread upstream_consts (three_workers [e5, Nf3] [e5] [d5]) < 3"
  using get_best_thread_five_steps[of "three_workers [e5, Nf3] [e5] [d5]" upstream_consts]
  by (simp add: three_workers_def upstream_consts_def)

lemma deep_pool_code:
  "thread_value 0 (deep_pool ! 1) = - 1293567296"
  "get_best_thread upstream_consts deep_pool = Inr 0"
  by (simp_all add: deep_pool_def get_best_thread_def min_score_def select_best_def replaces_def
      cast_votes_def thread_value_def int32_def int64_def upstream_consts_def Let_def upt_rec
      e4_def d4_def)

lemma deep_pool_spec:
  "spec_value deep_pool (deep_pool ! 1) = 3001400000"
  "spec_best_thread upstream_consts deep_pool = 1"
  by (simp_all add: deep_pool_def spec_best_thread_def spec_replaces_def spec_votes_def
      spec_value_def spec_minScore_def upstream_consts_def upt_rec e4_def d4_def)

text \<open>
  Claim C1 as originally worded, for every pool with root moves and principal variations:
  on the pool (score, depth, first move) = (0, 1, e4), (30000, 100000, d4) the product
  30014 * 100000 does not fit the 32-bit \<^verbatim>\<open>int\<close> it is computed in; the code gets the value
  -1293567296 and keeps slot 0, where the five steps give the value 3001400000 and slot 1.
\<close>

theorem get_best_thread_counterexample:
  "deep_pool \<noteq> []
   \<and> list_all (\<lambda>th. rootMoves th \<noteq> [] \<and> pv (hd (rootMoves th)) \<noteq> []) deep_pool
   \<and> thread_value (min_score upstream_consts deep_pool) (deep_pool ! 1) = - 1293567296
   \<and> spec_value deep_pool (deep_pool ! 1) = 3001400000
   \<and> get_best_thread upstream_consts deep_pool = Inr 0
   \<and> spec_best_thread upstream_consts deep_pool = 1"
proof -
  have "min_score upstream_consts deep_pool = 0"
    by (simp add: min_score_def deep_pool_def upstream_consts_def)
  then show ?thesis
    using deep_pool_code deep_pool_spec by (simp add: deep_pool_def)
qed

lemma three_workers_values:
  "map (thread_value 50) (three_workers r0 r1 r2) = [640, 648, 112]"
  by (simp add: three_workers_def thread_value_def int32_def)

lemma three_workers_votes:
  "cast_votes 50 (three_workers r0 r1 r2) e4 = 1288"
  "cast_votes 50 (three_workers r0 r1 r2) d4 = 112"
  by (simp_all add: cast_votes_def three_workers_def thread_value_def int32_def int64_def
      e4_def d4_def)

lemma three_workers_min_score:
  "50 \<le> VALUE_NONE c \<Longrightarrow> min_score c (three_workers r0 r1 r2) = 50"
  by (simp add: min_score_def three_workers_def)

text \<open>
  Claim C2, as amended. For the three-worker snapshot (score, depth, first move) =
  (100, 10, e4), (90, 12, e4), (50, 8, d4), with constants that put 100 below the
  tablebase-win level, 90 above the tablebase-loss level and 50 not above \<^verbatim>\<open>VALUE_NONE\<close>:
  \<open>minScore\<close> is 50, the values are (640, 648, 112), the vote totals are 1288 for e4 and
  112 for d4, and \<open>get_best_thread\<close> returns the second worker (the e4-voter with the
  higher value) when its principal variation is longer than two moves, and the first
  worker (slot 0) otherwise.
\<close>

theorem three_workers_selection:
  assumes "50 \<le> VALUE_NONE c" and "100 < VALUE_TB_WIN_IN_MAX_PLY c"
    and "VALUE_TB_LOSS_IN_MAX_PLY c < 90"
  shows "min_score c (three_workers r0 r1 r2) = 50
       \<and> map (thread_value 50) (three_workers r0 r1 r2) = [640, 648, 112]
       \<and> cast_votes 50 (three_workers r0 r1 r2) e4 = 1288
       \<and> cast_votes 50 (three_workers r0 r1 r2) d4 = 112
       \<and> get_best_thread c (three_workers r0 r1 r2) = Inr (if length (e4 # r1) > 2 then 1 else 0)"
proof -
  have ms: "min_score c (three_workers r0 r1 r2) = 50"
    using assms(1) by (rule three_workers_min_score)
  have sel: "select_best c 50 (cast_votes 50 (three_workers r0 r1 r2)) (three_workers r0 r1 r2)
               = (if length (e4 # r1) > 2 then 1 else 0)"
    using assms(2,3) three_workers_votes[of r0 r1 r2]
    by (simp add: select_best_def replaces_def upt_rec three_workers_def thread_value_def
        int32_def e4_def d4_def)
  have "get_best_thread c (three_workers r0 r1 r2) = Inr (if length (e4 # r1) > 2 then 1 else 0)"
    unfolding get_best_thread_def using ms sel
    by (simp add: Let_def) (simp add: three_workers_def)
  with ms three_workers_values three_workers_votes show ?thesis by blast
qed

theorem three_workers_selection_witness:
  "min_score upstream_consts (three_workers [e5, Nf3] [e5, Nf3] [d5]) = 50
   \<and> map (thread_value 50) (three_workers [e5, Nf3] [e5, Nf3] [d5]) = [640, 648, 112]
   \<and> cast_votes 50 (three_workers [e5, Nf3] [e5, Nf3] [d5]) e4 = 1288
   \<and> cast_votes 50 (three_workers [e5, Nf3] [e5, Nf3] [d5]) d4 = 112
   \<and> get_best_thread upstream_consts (three_workers [e5, Nf3] [e5, Nf3] [d5]) = Inr 1
   \<and> get_best_thread upstream_consts (three_workers [e5, Nf3] [e5] [d5]) = Inr 0"
  using three_workers_selection[of upstream_consts "[e5, Nf3]" "[e5, Nf3]" "[d5]"]
    three_workers_selection[of upstream_consts "[e5, Nf3]" "[e5]" "[d5]"]
  by (simp add: upstream_consts_def)

text \<open>Claim C2 as originally worded: its numbers (values (640, 616, 120), votes 1256 and
  120, first worker chosen) do not come out of the code on this snapshot, here with
  principal variations of three, three and two moves.\<close>

theorem three_workers_counterexample:
  "\<not> (min_score upstream_consts (three_workers [e5, Nf3] [e5, Nf3] [d5]) = 50
      \<and> map (thread_value (min_score upstream_consts (three_workers [e5, Nf3] [e5, Nf3] [d5])))
            (three_workers [e5, Nf3] [e5, Nf3] [d5]) = [640, 616, 120]
      \<and> cast_votes (min_score upstream_consts (three_workers [e5, Nf3] [e5, Nf3] [d5]))
            (three_workers [e5, Nf3] [e5, Nf3] [d5]) e4 = 1256
      \<and> cast_votes (min_score upstream_consts (three_workers [e5, Nf3] [e5, Nf3] [d5]))
            (three_workers [e5, Nf3] [e5, Nf3] [d5]) d4 = 120
      \<and> get_best_thread upstream_consts (three_workers [e5, Nf3] [e5, Nf3] [d5]) = Inr 0)"
proof
  assume claim: "min_score upstream_consts (three_workers [e5, Nf3] [e5, Nf3] [d5]) = 50
      \<and> map (thread_value (min_score upstream_consts (three_workers [e5, Nf3] [e5, Nf3] [d5])))
            (three_workers [e5, Nf3] [e5, Nf3] [d5]) = [640, 616, 120]
      \<and> cast_votes (min_score upstream_consts (three_workers [e5, Nf3] [e5, Nf3] [d5]))
            (three_workers [e5, Nf3] [e5, Nf3] [d5]) e4 = 1256
      \<and> cast_votes (min_score upstream_consts (three_workers [e5, Nf3] [e5, Nf3] [d5]))
            (three_workers [e5, Nf3] [e5, Nf3] [d5]) d4 = 120
      \<and> get_best_thread upstream_consts (three_workers [e5, Nf3] [e5, Nf3] [d5]) = Inr 0"
  then have ms: "min_score upstream_consts (three_workers [e5, Nf3] [e5, Nf3] [d5]) = 50"
    and vs: "map (thread_value (min_score upstream_consts (three_workers [e5, Nf3] [e5, Nf3] [d5])))
               (three_workers [e5, Nf3] [e5, Nf3] [d5]) = [640, 616, 120]"
    by blast+
  from vs have "map (thread_value 50) (three_workers [e5, Nf3] [e5, Nf3] [d5]) = [640, 616, 120]"
    unfolding ms .
  then show False
    unfolding three_workers_values by simp
qed

section \<open>The one-time initialisation at session start-up\<close>

lemma guard_invariant_start: "guard_invariant (start_sessions n)"
  by (simp add: guard_invariant_def start_sessions_def inside_block_def)

lemma holder_unique:
  assumes "guard_invariant s" and "i < length (sessions s)" and "inside_block (sessions s ! i)"
    and "j < length (sessions s)" and "j \<noteq> i"
  shows "\<not> inside_block (sessions s ! j)"
  using assms unfolding guard_invariant_def by auto

lemma guard_invariant_step:
  assumes inv: "guard_invariant s"
  shows "guard_invariant (session_step i s)"
proof (cases "i < length (sessions s)")
  case False
  then show ?thesis using assms by (simp add: session_step_def)
next
  case True
  show ?thesis
  proof (cases "sessions s ! i")
    case BeforeLock
    then show ?thesis
      using assms True
      unfolding guard_invariant_def session_step_def inside_block_def
      by (auto simp: nth_list_update)
  next
    case AtTest
    then have "\<forall>j < length (sessions s). j \<noteq> i \<longrightarrow> \<not> inside_block (sessions s ! j)"
      using holder_unique[OF inv True] by (simp add: inside_block_def)
    then have others: "\<forall>j < length (sessions s). j \<noteq> i \<longrightarrow>
        sessions s ! j \<noteq> AtTest \<and> sessions s ! j \<noteq> AtInit
        \<and> sessions s ! j \<noteq> AtAssign \<and> sessions s ! j \<noteq> AtUnlock"
      by (auto simp: inside_block_def)
    have no_assign: "\<not> (\<exists>j < length (sessions s). sessions s ! j = AtAssign)"
      using others AtTest by (metis session_pc.distinct(14))
    show ?thesis
      using inv True AtTest others no_assign
      unfolding guard_invariant_def session_step_def inside_block_def
      by (auto simp: nth_list_update)
  next
    case AtInit
    then have "\<forall>j < length (sessions s). j \<noteq> i \<longrightarrow> \<not> inside_block (sessions s ! j)"
      using holder_unique[OF inv True] by (simp add: inside_block_def)
    then have others: "\<forall>j < length (sessions s). j \<noteq> i \<longrightarrow>
        sessions s ! j \<noteq> AtTest \<and> sessions s ! j \<noteq> AtInit
        \<and> sessions s ! j \<noteq> AtAssign \<and> sessions s ! j \<noteq> AtUnlock"
      by (auto simp: inside_block_def)
    have no_assign: "\<not> (\<exists>j < length (sessions s). sessions s ! j = AtAssign)"
      using others AtInit by (metis session_pc.distinct(20))
    show ?thesis
      using inv True AtInit others no_assign
      unfolding guard_invariant_def session_step_def inside_block_def
      by (auto simp: nth_list_update)
  next
    case AtAssign
    then have "\<forall>j < length (sessions s). j \<noteq> i \<longrightarrow> \<not> inside_block (sessions s ! j)"
      using holder_unique[OF inv True] by (simp add: inside_block_def)
    then have others: "\<forall>j < length (sessions s). j \<noteq> i \<longrightarrow>
        sessions s ! j \<noteq> AtTest \<and> sessions s ! j \<noteq> AtInit
        \<and> sessions s ! j \<noteq> AtAssign \<and> sessions s ! j \<noteq> AtUnlock"
      by (auto simp: inside_block_def)
    show ?thesis
      using inv True AtAssign others
      unfolding guard_invariant_def session_step_def inside_block_def
      by (auto simp: nth_list_update)
  next
    case AtUnlock
    then have "\<forall>j < length (sessions s). j \<noteq> i \<longrightarrow> \<not> inside_block (sessions s ! j)"
      using holder_unique[OF inv True] by (simp add: inside_block_def)
    then have others: "\<forall>j < length (sessions s). j \<noteq> i \<longrightarrow>
        sessions s ! j \<noteq> AtTest \<and> sessions s ! j \<noteq> AtInit
        \<and> sessions s ! j \<noteq> AtAssign \<and> sessions s ! j \<noteq> AtUnlock"
      by (auto simp: inside_block_def)
    show ?thesis
      using inv True AtUnlock others
      unfolding guard_invariant_def session_step_def inside_block_def
      by (auto simp: nth_list_update)
  next
    case PastBlock
    then show ?thesis
      using assms True by (simp add: session_step_def)
  qed
qed

lemma guard_invariant_run:
  "guard_invariant s \<Longrightarrow> guard_invariant (run_schedule schedule s)"
  unfolding run_schedule_def
  by (induction schedule arbitrary: s) (simp_all add: guard_invariant_step)

lemma session_step_length [simp]: "length (sessions (session_step i s)) = length (sessions s)"
  by (auto simp: session_step_def split: session_pc.splits)

lemma run_schedule_length [simp]:
  "length (sessions (run_schedule schedule s)) = length (sessions s)"
  unfolding run_schedule_def by (induction schedule arbitrary: s) simp_all

lemma guard_invariant_reachable:
  "guard_invariant (run_schedule schedule (start_sessions n))"
  by (rule guard_invariant_run) (rule guard_invariant_start)

lemma guard_invariant_count:
  assumes "guard_invariant s"
  shows "init_count s \<le> 1"
    and "bitboards_initialized s \<Longrightarrow> init_count s = 1"
    and "PastBlock \<in> set (sessions s) \<Longrightarrow> init_count s = 1"
proof -
  show "init_count s \<le> 1" using assms by (simp add: guard_invariant_def)
  show flag: "init_count s = 1" if "bitboards_initialized s"
    using assms that by (simp add: guard_invariant_def)
  show "init_count s = 1" if "PastBlock \<in> set (sessions s)"
  proof -
    from that obtain i where "i < length (sessions s)" "sessions s ! i = PastBlock"
      by (auto simp: in_set_conv_nth)
    then have "bitboards_initialized s"
      using assms unfolding guard_invariant_def by blast
    then show ?thesis by (rule flag)
  qed
qed

lemma no_deadlock:
  assumes inv: "guard_invariant s" and i: "i < length (sessions s)" "sessions s ! i \<noteq> PastBlock"
  shows "\<exists>k < length (sessions s). session_step k s \<noteq> s"
proof (cases "mtx s")
  case None
  then have "\<not> inside_block (sessions s ! i)"
    using inv i(1) unfolding guard_invariant_def by auto
  then have "sessions s ! i = BeforeLock"
    using i(2) by (cases "sessions s ! i") (auto simp: inside_block_def)
  then have "mtx (session_step i s) = Some i"
    using None i(1) by (simp add: session_step_def)
  then have "session_step i s \<noteq> s" using None by auto
  then show ?thesis using i(1) by blast
next
  case (Some h)
  then have h: "h < length (sessions s)" "inside_block (sessions s ! h)"
    using inv unfolding guard_invariant_def by auto
  then have "sessions (session_step h s) ! h \<noteq> sessions s ! h"
    by (cases "sessions s ! h") (auto simp: session_step_def inside_block_def)
  then have "session_step h s \<noteq> s" by auto
  then show ?thesis using h(1) by blast
qed

lemma ten_sessions_run:
  "sessions (run_schedule ten_schedule (start_sessions 10)) = replicate 10 PastBlock"
  by code_simp

text \<open>
  Claim C3. For every number \<open>n\<close> of sessions started in one process and every order in
  which the scheduler lets them move (in particular for ten sessions), \<^verbatim>\<open>Bitboards::init\<close>
  is executed at most once; it has been executed exactly once as soon as one session is
  past the guarded block; and as long as some session is not past the block, some session
  can move, so that all of them get there. The guard is the one mutex and the one flag
  that every session goes through.
\<close>

theorem one_time_initialisation:
  "init_count (run_schedule schedule (start_sessions n)) \<le> 1
   \<and> (PastBlock \<in> set (sessions (run_schedule schedule (start_sessions n)))
        \<longrightarrow> init_count (run_schedule schedule (start_sessions n)) = 1)
   \<and> ((\<exists>i < n. sessions (run_schedule schedule (start_sessions n)) ! i \<noteq> PastBlock)
        \<longrightarrow> (\<exists>k < n. session_step k (run_schedule schedule (start_sessions n))
                        \<noteq> run_schedule schedule (start_sessions n)))"
proof -
  let ?s = "run_schedule schedule (start_sessions n)"
  have inv: "guard_invariant ?s" by (rule guard_invariant_reachable)
  have len: "length (sessions ?s) = n" by (simp add: start_sessions_def)
  show ?thesis
    using guard_invariant_count[OF inv] no_deadlock[OF inv] len by auto
qed

theorem one_time_initialisation_witness:
  "sessions (run_schedule ten_schedule (start_sessions 10)) = replicate 10 PastBlock
   \<and> init_count (run_schedule ten_schedule (start_sessions 10)) = 1"
  using one_time_initialisation[of ten_schedule 10] ten_sessions_run by simp

section \<open>The park and wake protocol of a thread\<close>

lemma blocked_until_done: "P th \<Longrightarrow> blocked_until s P th = Some th"
  by (subst blocked_until.simps) simp

lemma blocked_until_step:
  "\<not> P th \<Longrightarrow> blocked_until s P th = Option.bind (idle_loop_step s th) (blocked_until s P)"
  by (subst blocked_until.simps) simp

lemma idle_loop_step_type:
  "keeps_dynamic_type s \<Longrightarrow> idle_loop_step s th = Some th'
     \<Longrightarrow> (main_part th' = None) = (main_part th = None)"
  unfolding idle_loop_step_def keeps_dynamic_type_def
  by (cases "worker th") (auto split: if_splits option.splits)

lemma blocked_until_type_aux:
  "blocked_until s P th = Some th' \<Longrightarrow>
     (case ((s, P), th) of ((s, P), th) \<Rightarrow>
        \<lambda>th'. keeps_dynamic_type s \<longrightarrow> (main_part th' = None) = (main_part th = None)) th'"
proof (induction rule: blocked_until.raw_induct[rotated 1, consumes 1])
  case (1 f s P th th')
  show ?case
  proof (cases "P th")
    case True
    with 1(2) show ?thesis by simp
  next
    case False
    with 1(2) obtain t where t: "idle_loop_step s th = Some t" and "f s P t = Some th'"
      by (auto simp: bind_eq_Some_conv)
    from 1(1)[OF this(2)] idle_loop_step_type[OF _ t] show ?thesis by simp
  qed
qed

lemma blocked_until_type:
  "blocked_until s P th = Some th' \<Longrightarrow> keeps_dynamic_type s
     \<Longrightarrow> (main_part th' = None) = (main_part th = None)"
  using blocked_until_type_aux by fastforce

lemma wait_parked: "\<not> searching th \<Longrightarrow> Thread_wait_for_search_finished s th = Some th"
  unfolding Thread_wait_for_search_finished_def by (rule blocked_until_done) simp

lemma wait_launched:
  "searching th \<Longrightarrow> worker th = Launched \<Longrightarrow> threads_stored th \<Longrightarrow>
     Thread_wait_for_search_finished s th = Some (th\<lparr>searching := False, worker := Parked\<rparr>)"
  unfolding Thread_wait_for_search_finished_def
  by (subst blocked_until_step, simp, simp add: idle_loop_step_def, subst blocked_until_done)
     simp_all

lemma worker_runs_launched:
  "worker th = Launched \<Longrightarrow> \<not> threads_stored th \<Longrightarrow> worker_runs s th = Inl UndefinedBehaviour"
  by (simp add: worker_runs_def idle_loop_step_def)

lemma Thread_ctor_result:
  "Thread_ctor s False (raw_thread e n) n = Inr (new_thread e n)"
  "Thread_ctor s True raw n = Inl UndefinedBehaviour"
  by (simp_all add: Thread_ctor_def wait_launched or_blocks_def new_thread_def and_then_def
      worker_runs_launched)

lemma MainThread_ctor_result:
  "MainThread_ctor s False (raw_thread e 0) (raw_main e) 0 = Inr (new_main e)"
  "MainThread_ctor s True raw rm k = Inl UndefinedBehaviour"
  by (simp_all add: MainThread_ctor_def wait_launched or_blocks_def new_main_def and_then_def
      worker_runs_launched)

lemma idle_loop_step_exit:
  "worker th = Parked \<Longrightarrow> idle_loop_step s (signal_exit th)
     = Some (th\<lparr>exit := True, searching := True, worker := Returned\<rparr>)"
  by (simp add: idle_loop_step_def signal_exit_def Thread_start_searching_def wake_predicate_def)

lemma Thread_dtor_parked:
  assumes "parked th"
  shows "Thread_dtor s th = Inr (th\<lparr>exit := True, searching := True, worker := Returned\<rparr>)"
proof -
  have w: "worker th = Parked" and ns: "\<not> searching th"
    using assms by (simp_all add: parked_def)
  have "\<not> worker (signal_exit th) = Returned"
    using w by (simp add: signal_exit_def Thread_start_searching_def)
  then have "join s (signal_exit th)
      = Option.bind (idle_loop_step s (signal_exit th)) (blocked_until s (\<lambda>t. worker t = Returned))"
    unfolding join_def by (rule blocked_until_step)
  also have "\<dots> = blocked_until s (\<lambda>t. worker t = Returned)
                     (th\<lparr>exit := True, searching := True, worker := Returned\<rparr>)"
    using w by (simp add: idle_loop_step_exit)
  also have "\<dots> = Some (th\<lparr>exit := True, searching := True, worker := Returned\<rparr>)"
    by (rule blocked_until_done) simp
  finally show ?thesis
    using ns by (simp add: Thread_dtor_def or_blocks_def)
qed

text \<open>
  Claim C9 at its failing input. When the scheduler lets the new worker take its first
  step before the constructor has stored \<^verbatim>\<open>_threads\<close>, the worker reads the indeterminate
  member at line 102 and the construction has undefined behaviour instead of returning a
  parked thread. When the worker's first step comes after the store, the constructor
  returns the object as that step leaves it: the flag cleared, the worker parked, and a
  following \<^verbatim>\<open>wait_for_search_finished\<close> returns at once.
\<close>

theorem Thread_ctor_races_with_worker:
  "Thread_ctor search True raw n = Inl UndefinedBehaviour
   \<and> Thread_ctor search False raw n
       = Inr (raw\<lparr>idx := n, exit := False, searching := False, worker := Parked,
                   threads_stored := True, rootMoves := [], main_part := None\<rparr>)
   \<and> Thread_wait_for_search_finished search
         (raw\<lparr>idx := n, exit := False, searching := False, worker := Parked,
              threads_stored := True, rootMoves := [], main_part := None\<rparr>)
       = Some (raw\<lparr>idx := n, exit := False, searching := False, worker := Parked,
                    threads_stored := True, rootMoves := [], main_part := None\<rparr>)"
  by (simp add: Thread_ctor_def wait_launched wait_parked or_blocks_def and_then_def
      worker_runs_launched)

text \<open>
  Claim C5, as amended. The destructor of \<^verbatim>\<open>Thread\<close> asserts that the thread is not
  searching. On a parked thread it sets the separate flag \<^verbatim>\<open>exit\<close> and then raises the
  very flag \<^verbatim>\<open>searching\<close> that a search request raises (it calls \<^verbatim>\<open>start_searching\<close>): the
  parked worker wakes on the same condition-variable predicate in both cases, and the
  \<^verbatim>\<open>exit\<close> flag alone does not wake it. Once awake the worker tests \<^verbatim>\<open>exit\<close> and returns from
  \<^verbatim>\<open>idle_loop\<close>, and the destructor's \<^verbatim>\<open>join\<close> returns.
\<close>

theorem thread_destruction_protocol:
  "(searching th \<longrightarrow> Thread_dtor search th = Inl AssertionFailure)
   \<and> (parked th \<longrightarrow>
        signal_exit th = th\<lparr>exit := True, searching := True\<rparr>
      \<and> wake_predicate (signal_exit th) \<and> wake_predicate (Thread_start_searching th)
      \<and> \<not> wake_predicate (th\<lparr>exit := True\<rparr>)
      \<and> idle_loop_step search (signal_exit th)
          = Some (th\<lparr>exit := True, searching := True, worker := Returned\<rparr>)
      \<and> Thread_dtor search th = Inr (th\<lparr>exit := True, searching := True, worker := Returned\<rparr>))"
proof (intro conjI impI)
  assume "searching th"
  then show "Thread_dtor search th = Inl AssertionFailure"
    by (simp add: Thread_dtor_def)
next
  assume p: "parked th"
  show "signal_exit th = th\<lparr>exit := True, searching := True\<rparr>"
    by (simp add: signal_exit_def Thread_start_searching_def)
  show "wake_predicate (signal_exit th)"
    by (simp add: signal_exit_def Thread_start_searching_def wake_predicate_def)
  show "wake_predicate (Thread_start_searching th)"
    by (simp add: Thread_start_searching_def wake_predicate_def)
  show "\<not> wake_predicate (th\<lparr>exit := True\<rparr>)"
    using p by (simp add: wake_predicate_def parked_def)
  show "idle_loop_step search (signal_exit th)
          = Some (th\<lparr>exit := True, searching := True, worker := Returned\<rparr>)"
    using p by (simp add: idle_loop_step_exit parked_def)
  show "Thread_dtor search th = Inr (th\<lparr>exit := True, searching := True, worker := Returned\<rparr>)"
    using p by (rule Thread_dtor_parked)
qed

theorem thread_destruction_protocol_witness:
  "Thread_dtor (\<lambda>t. Some t) ((idle_snapshot 1 0 0 [])\<lparr>searching := True\<rparr>) = Inl AssertionFailure
   \<and> Thread_dtor (\<lambda>t. Some t) (idle_snapshot 1 0 0 [])
       = Inr ((idle_snapshot 1 0 0 [])\<lparr>exit := True, searching := True, worker := Returned\<rparr>)
   \<and> wake_predicate (signal_exit (idle_snapshot 1 0 0 []))"
  using thread_destruction_protocol[of "(idle_snapshot 1 0 0 [])\<lparr>searching := True\<rparr>" "\<lambda>t. Some t"]
    thread_destruction_protocol[of "idle_snapshot 1 0 0 []" "\<lambda>t. Some t"]
  by (simp add: parked_def wake_predicate_def)

text \<open>Claim C5 as originally worded has termination and the start of a search signalled by
  different predicate values. On a parked thread both requests raise the same predicate
  of the worker's wait, the destructor's signal being a call of \<^verbatim>\<open>start_searching\<close>, and
  \<^verbatim>\<open>exit\<close> set without it leaves the worker asleep.\<close>

theorem exit_signal_counterexample:
  "wake_predicate (signal_exit (idle_snapshot 1 0 0 []))
     = wake_predicate (Thread_start_searching (idle_snapshot 1 0 0 []))
   \<and> signal_exit (idle_snapshot 1 0 0 [])
     = Thread_start_searching ((idle_snapshot 1 0 0 [])\<lparr>exit := True\<rparr>)
   \<and> idle_loop_step (\<lambda>t. Some t) ((idle_snapshot 1 0 0 [])\<lparr>exit := True\<rparr>) = None"
  by (simp add: signal_exit_def Thread_start_searching_def wake_predicate_def idle_loop_step_def)

section \<open>Resizing and resetting the pool\<close>

lemma pop_all_empties: "pop_all s ths = Inr r \<Longrightarrow> r = []"
  by (induction ths) (auto simp: and_then_def split: sum.splits)

lemma pop_all_parked: "list_all parked ths \<Longrightarrow> pop_all s ths = Inr []"
  by (induction ths) (auto simp: and_then_def Thread_dtor_parked)

lemma destroy_threads_empties: "destroy_threads s ths = Inr r \<Longrightarrow> r = []"
  by (auto simp: destroy_threads_def and_then_def split: list.splits sum.splits
      dest: pop_all_empties)

lemma destroy_threads_parked: "list_all parked ths \<Longrightarrow> destroy_threads s ths = Inr []"
proof (cases ths)
  case Nil
  then show ?thesis by (simp add: destroy_threads_def)
next
  case (Cons m rest)
  assume idle: "list_all parked ths"
  then have "Thread_wait_for_search_finished s m = Some m"
    using Cons by (simp add: parked_def wait_parked)
  moreover have "pop_all s (rev (m # rest)) = Inr []"
    using idle Cons by (intro pop_all_parked) (simp add: list_all_iff)
  ultimately show ?thesis
    using Cons by (simp add: destroy_threads_def and_then_def or_blocks_def)
qed

lemma push_threads_result:
  "push_threads e n ths =
     (if \<exists>i. length ths \<le> i \<and> i < n \<and> worker_reads_early e i then Inl UndefinedBehaviour
      else Inr (ths @ map (new_thread e) [length ths..<n]))"
proof (induction e n ths rule: push_threads.induct)
  case (1 e requested ths)
  show ?case
  proof (cases "length ths < requested")
    case False
    then show ?thesis by (subst push_threads.simps) auto
  next
    case True
    show ?thesis
    proof (cases "worker_reads_early e (length ths)")
      case early: True
      then have "push_threads e requested ths = Inl UndefinedBehaviour"
        using True by (subst push_threads.simps) (simp add: and_then_def Thread_ctor_result)
      moreover have "\<exists>i. length ths \<le> i \<and> i < requested \<and> worker_reads_early e i"
        using True early by blast
      ultimately show ?thesis by simp
    next
      case late: False
      have "push_threads e requested ths
              = push_threads e requested (ths @ [new_thread e (length ths)])"
        using True late by (subst push_threads.simps) (simp add: and_then_def Thread_ctor_result)
      also have "\<dots> =
          (if \<exists>i. Suc (length ths) \<le> i \<and> i < requested \<and> worker_reads_early e i
           then Inl UndefinedBehaviour
           else Inr ((ths @ [new_thread e (length ths)])
                     @ map (new_thread e) [Suc (length ths)..<requested]))"
        using "1.IH"[OF True, of "new_thread e (length ths)"] by auto
      also have "(\<exists>i. Suc (length ths) \<le> i \<and> i < requested \<and> worker_reads_early e i)
                   = (\<exists>i. length ths \<le> i \<and> i < requested \<and> worker_reads_early e i)"
        using late by (metis Suc_leD Suc_leI le_neq_implies_less)
      finally show ?thesis
        using True by (auto simp: upt_conv_Cons)
    qed
  qed
qed

lemma Thread_clear_baseline: "at_baseline c (Thread_clear c th)"
proof -
  have "fold (\<lambda>inCheck ch.
                  fold (\<lambda>ct ch'. ch'(inCheck := (ch' inCheck)(ct := (\<lambda>to h k. - 71))))
                    [NoCaptures, Captures] ch)
            [False, True] (continuationHistory th) = (\<lambda>_ _ _ _ _. - 71)"
  proof (intro ext)
    fix inCheck ct a b k
    show "fold (\<lambda>inCheck ch.
                  fold (\<lambda>ct ch'. ch'(inCheck := (ch' inCheck)(ct := (\<lambda>to h k. - 71))))
                    [NoCaptures, Captures] ch)
            [False, True] (continuationHistory th) inCheck ct a b k = - 71"
      by (cases inCheck; cases ct) simp_all
  qed
  then show ?thesis by (simp add: at_baseline_def Thread_clear_def)
qed

lemma Thread_clear_keeps [simp]:
  "main_part (Thread_clear c th) = main_part th"
  "searching (Thread_clear c th) = searching th"
  "worker (Thread_clear c th) = worker th"
  "idx (Thread_clear c th) = idx th"
  by (simp_all add: Thread_clear_def)

lemma ThreadPool_clear_result:
  "threads p = m # rest \<Longrightarrow> main_part m = Some mp \<Longrightarrow>
     ThreadPool_clear c p = Inr (p\<lparr>threads := cleared_main c m mp # map (Thread_clear c) rest\<rparr>)"
  by (simp add: ThreadPool_clear_def cleared_main_def)

lemma cleared_main_props:
  "at_baseline c (cleared_main c m mp)" "main_reset c (cleared_main c m mp)"
  "main_part (cleared_main c m mp) \<noteq> None"
  "searching (cleared_main c m mp) = searching m" "worker (cleared_main c m mp) = worker m"
  using Thread_clear_baseline[of c m]
  by (simp_all add: cleared_main_def at_baseline_def main_reset_def)

lemma ThreadPool_set_result:
  assumes "destroy_threads (search_body e) (threads p) = Inr r" and "0 < n \<longrightarrow> no_early_read e n"
  shows "ThreadPool_set e n p =
     Inr (if n > 0
          then p\<lparr>threads := fresh_pool_threads e n,
                 calls := calls p @ [TT_resize (option_Hash e) (fresh_pool_threads e n),
                                     Search_init (fresh_pool_threads e n)]\<rparr>
          else p\<lparr>threads := []\<rparr>)"
proof -
  have r: "r = []" using assms(1) by (rule destroy_threads_empties)
  show ?thesis
  proof (cases "n > 0")
    case False
    then show ?thesis using assms(1) r by (simp add: ThreadPool_set_def and_then_def)
  next
    case True
    then have late: "\<not> worker_reads_early e 0"
      and rest: "\<not> (\<exists>i. 1 \<le> i \<and> i < n \<and> worker_reads_early e i)"
      using assms(2) by (auto simp: no_early_read_def)
    have ps: "push_threads e n ([] @ [new_main e]) = Inr (new_main e # map (new_thread e) [1..<n])"
      using rest by (simp add: push_threads_result)
    have cl: "ThreadPool_clear (vals e) (p\<lparr>threads := new_main e # map (new_thread e) [1..<n]\<rparr>)
      = Inr (p\<lparr>threads := fresh_pool_threads e n\<rparr>)"
      by (subst ThreadPool_clear_result[where m = "new_main e" and mp = "raw_main e"
            and rest = "map (new_thread e) [1..<n]"])
         (simp_all add: new_main_def fresh_pool_threads_def)
    show ?thesis
      using True assms(1) r late MainThread_ctor_result(1)[of "search_body e" e] ps cl
      by (simp add: ThreadPool_set_def and_then_def)
  qed
qed

lemma ThreadPool_set_faults:
  "destroy_threads (search_body e) (threads p) = Inl f \<Longrightarrow> ThreadPool_set e n p = Inl f"
  by (simp add: ThreadPool_set_def and_then_def)

lemma ThreadPool_set_undefined:
  assumes "destroy_threads (search_body e) (threads p) = Inr r" and "0 < n"
    and "\<not> no_early_read e n"
  shows "ThreadPool_set e n p = Inl UndefinedBehaviour"
proof -
  have r: "r = []" using assms(1) by (rule destroy_threads_empties)
  show ?thesis
  proof (cases "worker_reads_early e 0")
    case True
    then show ?thesis
      using assms(1,2) r by (simp add: ThreadPool_set_def and_then_def MainThread_ctor_result)
  next
    case False
    from assms(3) obtain i where i: "i < n" "worker_reads_early e i"
      by (auto simp: no_early_read_def)
    then have "1 \<le> i" using False by (cases i) auto
    then have "push_threads e n ([] @ [new_main e]) = Inl UndefinedBehaviour"
      using i by (auto simp: push_threads_result)
    then show ?thesis
      using assms(1,2) r False MainThread_ctor_result(1)[of "search_body e" e]
      by (simp add: ThreadPool_set_def and_then_def)
  qed
qed

lemma ThreadPool_set_Inr:
  assumes "ThreadPool_set e n p = Inr p'"
  shows "p' = (if n > 0
          then p\<lparr>threads := fresh_pool_threads e n,
                 calls := calls p @ [TT_resize (option_Hash e) (fresh_pool_threads e n),
                                     Search_init (fresh_pool_threads e n)]\<rparr>
          else p\<lparr>threads := []\<rparr>)"
proof (cases "destroy_threads (search_body e) (threads p)")
  case (Inl f)
  then show ?thesis using assms ThreadPool_set_faults[OF Inl, of n] by simp
next
  case (Inr r)
  show ?thesis
  proof (cases "0 < n \<longrightarrow> no_early_read e n")
    case True
    then show ?thesis using assms ThreadPool_set_result[OF Inr True] by simp
  next
    case False
    then show ?thesis using assms ThreadPool_set_undefined[OF Inr, of n] by simp
  qed
qed

lemma fresh_pool_threads_props:
  "n > 0 \<Longrightarrow> length (fresh_pool_threads e n) = n"
  "one_main_at_front (fresh_pool_threads e n)"
  "main_part (hd (fresh_pool_threads e n)) \<noteq> None"
  "list_all parked (fresh_pool_threads e n)"
  "list_all (at_baseline (vals e)) (fresh_pool_threads e n)"
  "main_reset (vals e) (hd (fresh_pool_threads e n))"
  by (auto simp: fresh_pool_threads_def one_main_at_front_def cleared_main_props list_all_iff
      new_thread_def new_main_def parked_def Thread_clear_baseline)

text \<open>What \<^verbatim>\<open>set(n)\<close> does for \<open>n > 0\<close> when no worker reads \<^verbatim>\<open>_threads\<close> too early: on an
  idle pool it returns, and whenever it returns it has made exactly two collaborator
  calls, the resize of the transposition table and then the re-initialisation of the
  search parameters, on a pool that is already reset.\<close>

lemma set_resets_before_resize_without_race:
  assumes "0 < n"
  shows "(list_all parked (threads p) \<and> no_early_read e n \<longrightarrow> (\<exists>p'. ThreadPool_set e n p = Inr p'))
       \<and> (\<forall>p'. ThreadPool_set e n p = Inr p' \<longrightarrow>
             (\<exists>ths. calls p' = calls p @ [TT_resize (option_Hash e) ths, Search_init ths]
                  \<and> threads p' = ths
                  \<and> list_all (at_baseline (vals e)) ths
                  \<and> main_reset (vals e) (hd ths)))"
proof (intro conjI impI allI)
  assume "list_all parked (threads p) \<and> no_early_read e n"
  then have "destroy_threads (search_body e) (threads p) = Inr []" and "0 < n \<longrightarrow> no_early_read e n"
    by (simp_all add: destroy_threads_parked)
  from ThreadPool_set_result[OF this] show "\<exists>p'. ThreadPool_set e n p = Inr p'"
    by blast
next
  fix p'
  assume "ThreadPool_set e n p = Inr p'"
  from ThreadPool_set_Inr[OF this] assms
  have "p' = p\<lparr>threads := fresh_pool_threads e n,
               calls := calls p @ [TT_resize (option_Hash e) (fresh_pool_threads e n),
                                   Search_init (fresh_pool_threads e n)]\<rparr>"
    by simp
  then show "\<exists>ths. calls p' = calls p @ [TT_resize (option_Hash e) ths, Search_init ths]
                  \<and> threads p' = ths
                  \<and> list_all (at_baseline (vals e)) ths
                  \<and> main_reset (vals e) (hd ths)"
    by (simp add: fresh_pool_threads_props)
qed

lemma demo_env_reads:
  "no_early_read demo_env n" "k < n \<Longrightarrow> \<not> no_early_read (racy_env k) n"
  "search_body (racy_env k) = search_body demo_env"
  "vals demo_env = upstream_consts" "option_Hash demo_env = 16"
  by (auto simp: no_early_read_def demo_env_def racy_env_def)

text \<open>
  Claim C10 at its failing input. \<^verbatim>\<open>set(2)\<close> on the empty pool, with a scheduler that lets
  the worker of the main thread read \<^verbatim>\<open>_threads\<close> before its constructor has stored it, has
  undefined behaviour in the first constructor: no reset, no resize and no
  re-initialisation take place. Under a scheduler without such a read the same call
  returns, having made the two collaborator calls in order on a pool whose tables are at
  their baseline and whose main thread is reset.
\<close>

theorem set_undefined_before_reset:
  "ThreadPool_set (racy_env 0) 2 empty_pool = Inl UndefinedBehaviour
   \<and> \<not> isl (ThreadPool_set demo_env 2 empty_pool)
   \<and> calls (projr (ThreadPool_set demo_env 2 empty_pool))
       = [TT_resize 16 (threads (projr (ThreadPool_set demo_env 2 empty_pool))),
          Search_init (threads (projr (ThreadPool_set demo_env 2 empty_pool)))]
   \<and> list_all (at_baseline upstream_consts) (threads (projr (ThreadPool_set demo_env 2 empty_pool)))
   \<and> main_reset upstream_consts (hd (threads (projr (ThreadPool_set demo_env 2 empty_pool))))"
proof -
  have d: "destroy_threads s (threads empty_pool) = Inr []" for s
    by (simp add: empty_pool_def destroy_threads_def)
  have bad: "ThreadPool_set (racy_env 0) 2 empty_pool = Inl UndefinedBehaviour"
    by (intro ThreadPool_set_undefined[OF d]) (simp_all add: demo_env_reads)
  have good: "ThreadPool_set demo_env 2 empty_pool
      = Inr (empty_pool\<lparr>threads := fresh_pool_threads demo_env 2,
               calls := calls empty_pool @ [TT_resize (option_Hash demo_env) (fresh_pool_threads demo_env 2),
                                            Search_init (fresh_pool_threads demo_env 2)]\<rparr>)"
    using ThreadPool_set_result[where e = demo_env and n = 2 and p = empty_pool, OF d]
    by (simp add: demo_env_reads)
  show ?thesis
    using bad fresh_pool_threads_props(5,6)[of demo_env 2]
    unfolding good by (simp add: demo_env_reads empty_pool_def)
qed

section \<open>Starting a search\<close>

lemma setup_thread_props [simp]:
  "counters_reset (setup_thread pos rms b th)"
  "searching (setup_thread pos rms b th) = searching th"
  "worker (setup_thread pos rms b th) = worker th"
  "main_part (setup_thread pos rms b th) = main_part th"
  "rootMoves (setup_thread pos rms b th) = rms"
  by (simp_all add: setup_thread_def counters_reset_def)

lemma start_searching_props [simp]:
  "counters_reset (Thread_start_searching th) = counters_reset th"
  "searching (Thread_start_searching th)"
  "worker (Thread_start_searching th) = worker th"
  "main_part (Thread_start_searching th) = main_part th"
  "rootMoves (Thread_start_searching th) = rootMoves th"
  by (simp_all add: Thread_start_searching_def counters_reset_def)

lemma thinking_pool_props:
  "setupStates (thinking_pool e pos lmts pm p m1 mp rest sts) = Some sts"
  "length (threads (thinking_pool e pos lmts pm p m1 mp rest sts)) = Suc (length rest)"
  "list_all counters_reset (threads (thinking_pool e pos lmts pm p m1 mp rest sts))"
  "searching (hd (threads (thinking_pool e pos lmts pm p m1 mp rest sts)))"
  "worker (hd (threads (thinking_pool e pos lmts pm p m1 mp rest sts))) = worker m1"
  "map searching (tl (threads (thinking_pool e pos lmts pm p m1 mp rest sts))) = map searching rest"
  "map worker (tl (threads (thinking_pool e pos lmts pm p m1 mp rest sts))) = map worker rest"
  "main_part (hd (threads (thinking_pool e pos lmts pm p m1 mp rest sts))) \<noteq> None"
  "map main_part (tl (threads (thinking_pool e pos lmts pm p m1 mp rest sts))) = map main_part rest"
  "calls (thinking_pool e pos lmts pm p m1 mp rest sts)
     = calls p @ (if build_rootMoves e pos lmts = [] then []
                  else [TB_rank_root_moves pos (build_rootMoves e pos lmts)])"
  "list_all (\<lambda>th. rootMoves th = ranked_rootMoves e pos lmts)
     (threads (thinking_pool e pos lmts pm p m1 mp rest sts))"
  by (simp_all add: thinking_pool_def list_all_iff)

lemma start_thinking_result:
  assumes "threads p = m # rest"
    and "Thread_wait_for_search_finished (search_body e) m = Some m1"
    and "main_part m1 = Some mp"
    and "states = Some sts \<or> (states = None \<and> setupStates p = Some sts)"
    and "sts \<noteq> []"
  shows "ThreadPool_start_thinking e pos states lmts ponderMode p
           = Inr (thinking_pool e pos lmts ponderMode p m1 mp rest sts, None)"
  using assms
  by (auto simp: ThreadPool_start_thinking_def and_then_def or_blocks_def Let_def
      thinking_pool_def ranked_rootMoves_def)

lemma start_thinking_Inr:
  assumes "ThreadPool_start_thinking e pos states lmts ponderMode p = Inr (p', states')"
  shows "\<exists>m rest m1 mp sts. threads p = m # rest
           \<and> Thread_wait_for_search_finished (search_body e) m = Some m1
           \<and> main_part m1 = Some mp
           \<and> (states = Some sts \<or> (states = None \<and> setupStates p = Some sts))
           \<and> sts \<noteq> []"
  using assms
  unfolding ThreadPool_start_thinking_def and_then_def or_blocks_def Let_def
  by (auto split: list.splits option.splits sum.splits if_splits)

lemma idle_pool_reads:
  "threads idle_pool = idle_snapshot 0 0 0 [] # [idle_snapshot 1 0 0 []]"
  "calls idle_pool = []"
  "Thread_wait_for_search_finished s (idle_snapshot 0 0 0 []) = Some (idle_snapshot 0 0 0 [])"
  by (simp_all add: idle_pool_def empty_pool_def wait_parked)

lemma demo_rootMoves:
  "build_rootMoves demo_env start_position no_limits
     = [\<lparr>score = - 32001, pv = [e4]\<rparr>, \<lparr>score = - 32001, pv = [d4]\<rparr>]"
  "build_rootMoves demo_env mated_position no_limits = []"
  by (simp_all add: build_rootMoves_def demo_env_def start_position_def mated_position_def
      no_limits_def)

text \<open>
  Claim C6. A call of \<^verbatim>\<open>start_thinking\<close> with a non-empty history handle, on a pool whose
  main thread is idle or finishes its running search, returns with the caller's handle
  empty and the states owned by the pool, every worker's counters (\<^verbatim>\<open>nodes\<close>, \<^verbatim>\<open>tbHits\<close>,
  \<^verbatim>\<open>bestMoveChanges\<close>, \<^verbatim>\<open>nmpMinPly\<close>, the two depths) at zero, the \<^verbatim>\<open>searching\<close> flag of the
  main thread raised and that of every other worker as it was. It returns with the search
  still pending: the main worker is where the wait left it, its flag set.
\<close>

theorem start_thinking_moves_handle_and_wakes_main:
  assumes "threads p = m # rest"
    and "Thread_wait_for_search_finished (search_body e) m = Some m1"
    and "main_part m1 \<noteq> None"
    and "states = Some sts" and "sts \<noteq> []"
  shows "\<exists>p'. ThreadPool_start_thinking e pos states lmts ponderMode p = Inr (p', None)
      \<and> setupStates p' = states
      \<and> length (threads p') = length (threads p)
      \<and> list_all counters_reset (threads p')
      \<and> searching (hd (threads p')) \<and> worker (hd (threads p')) = worker m1
      \<and> map searching (tl (threads p')) = map searching rest
      \<and> map worker (tl (threads p')) = map worker rest"
proof -
  from assms(3) obtain mp where mp: "main_part m1 = Some mp" by auto
  have "ThreadPool_start_thinking e pos states lmts ponderMode p
          = Inr (thinking_pool e pos lmts ponderMode p m1 mp rest sts, None)"
    using assms(1,2) mp assms(4,5) by (intro start_thinking_result) auto
  then show ?thesis
    using assms(1,4) by (simp add: thinking_pool_props)
qed

theorem start_thinking_moves_handle_and_wakes_main_witness:
  "\<not> isl (ThreadPool_start_thinking demo_env start_position (Some [1, 2]) no_limits False idle_pool)
   \<and> snd (projr (ThreadPool_start_thinking demo_env start_position (Some [1, 2]) no_limits False
                   idle_pool)) = None
   \<and> setupStates (fst (projr (ThreadPool_start_thinking demo_env start_position (Some [1, 2])
                   no_limits False idle_pool))) = Some [1, 2]
   \<and> map searching (threads (fst (projr (ThreadPool_start_thinking demo_env start_position
                   (Some [1, 2]) no_limits False idle_pool)))) = [True, False]
   \<and> list_all counters_reset (threads (fst (projr (ThreadPool_start_thinking demo_env
                   start_position (Some [1, 2]) no_limits False idle_pool))))"
proof -
  from start_thinking_moves_handle_and_wakes_main[of idle_pool "idle_snapshot 0 0 0 []"
      "[idle_snapshot 1 0 0 []]" demo_env "idle_snapshot 0 0 0 []" "Some [1, 2]" "[1, 2]"
      start_position no_limits False]
  obtain p' where p': "ThreadPool_start_thinking demo_env start_position (Some [1, 2]) no_limits
        False idle_pool = Inr (p', None)"
    and props: "setupStates p' = Some [1, 2]" "length (threads p') = length (threads idle_pool)"
      "list_all counters_reset (threads p')" "searching (hd (threads p'))"
      "map searching (tl (threads p')) = map searching [idle_snapshot 1 0 0 []]"
    by (auto simp: idle_pool_reads)
  from props(2) obtain a b where ab: "threads p' = [a, b]"
    by (cases "threads p'"; cases "tl (threads p')") (auto simp: idle_pool_reads)
  show ?thesis
    unfolding p' using props ab by simp
qed

text \<open>
  Claim C8, as amended. During a call of \<^verbatim>\<open>start_thinking\<close> that returns, the ranking
  operation of the endgame-table collaborator is invoked exactly once when at least one
  legal move passes the allow-list, and then on the root move list built from the
  legal-move enumeration filtered by the allow-list; it is not invoked when that list is
  empty.
\<close>

theorem rank_root_moves_called_when_moves_exist:
  assumes "threads p = m # rest"
    and "Thread_wait_for_search_finished (search_body e) m = Some m1"
    and "main_part m1 \<noteq> None"
    and "states = Some sts \<or> (states = None \<and> setupStates p = Some sts)" and "sts \<noteq> []"
  shows "\<exists>p'. ThreadPool_start_thinking e pos states lmts ponderMode p = Inr (p', None)
      \<and> calls p' = calls p @ (if build_rootMoves e pos lmts = [] then []
                               else [TB_rank_root_moves pos (build_rootMoves e pos lmts)])
      \<and> rank_calls (calls p')
          = rank_calls (calls p) + (if build_rootMoves e pos lmts = [] then 0 else 1)"
proof -
  from assms(3) obtain mp where mp: "main_part m1 = Some mp" by auto
  have "ThreadPool_start_thinking e pos states lmts ponderMode p
          = Inr (thinking_pool e pos lmts ponderMode p m1 mp rest sts, None)"
    using assms(1,2) mp assms(4,5) by (intro start_thinking_result) auto
  then show ?thesis
    by (simp add: thinking_pool_props rank_calls_def)
qed

theorem rank_root_moves_called_when_moves_exist_witness:
  "rank_calls_after (ThreadPool_start_thinking demo_env start_position (Some [1, 2]) no_limits
       False idle_pool) = Some 1
   \<and> rank_calls_after (ThreadPool_start_thinking demo_env mated_position (Some [1, 2]) no_limits
       False idle_pool) = Some 0"
proof -
  from rank_root_moves_called_when_moves_exist[of idle_pool "idle_snapshot 0 0 0 []"
      "[idle_snapshot 1 0 0 []]" demo_env "idle_snapshot 0 0 0 []" "Some [1, 2]" "[1, 2]"
      start_position no_limits False]
  have a: "rank_calls_after (ThreadPool_start_thinking demo_env start_position (Some [1, 2])
             no_limits False idle_pool) = Some 1"
    by (auto simp: idle_pool_reads demo_rootMoves rank_calls_after_def rank_calls_def)
  from rank_root_moves_called_when_moves_exist[of idle_pool "idle_snapshot 0 0 0 []"
      "[idle_snapshot 1 0 0 []]" demo_env "idle_snapshot 0 0 0 []" "Some [1, 2]" "[1, 2]"
      mated_position no_limits False]
  have b: "rank_calls_after (ThreadPool_start_thinking demo_env mated_position (Some [1, 2])
             no_limits False idle_pool) = Some 0"
    by (auto simp: idle_pool_reads demo_rootMoves rank_calls_after_def rank_calls_def)
  from a b show ?thesis by simp
qed

text \<open>Claim C8 as originally worded has exactly one invocation in every call. In a position
  without legal moves the call returns without a single invocation of the ranking
  operation.\<close>

theorem rank_root_moves_counterexample:
  "rank_calls_after (ThreadPool_start_thinking demo_env mated_position (Some [1, 2]) no_limits
       False idle_pool) \<noteq> Some 1"
proof -
  obtain mp where mp: "main_part (idle_snapshot 0 0 0 []) = Some mp"
    by (simp add: idle_snapshot_def)
  have "ThreadPool_start_thinking demo_env mated_position (Some [1, 2]) no_limits False idle_pool
      = Inr (thinking_pool demo_env mated_position no_limits False idle_pool
               (idle_snapshot 0 0 0 []) mp [idle_snapshot 1 0 0 []] [1, 2], None)"
    using start_thinking_result[of idle_pool "idle_snapshot 0 0 0 []" "[idle_snapshot 1 0 0 []]"
        demo_env "idle_snapshot 0 0 0 []" mp "Some [1, 2]" "[1, 2]" mated_position no_limits False]
    by (simp add: idle_pool_reads mp)
  then show ?thesis
    by (simp add: rank_calls_after_def rank_calls_def thinking_pool_props demo_rootMoves
        idle_pool_reads)
qed

section \<open>The main thread stays in slot 0\<close>

lemma wait_each_main_parts:
  assumes "wait_each s ths = Inr r" and "keeps_dynamic_type s"
    and "list_all (\<lambda>th. main_part th = None) ths"
  shows "length r = length ths \<and> list_all (\<lambda>th. main_part th = None) r"
  using assms
proof (induction ths arbitrary: r)
  case Nil
  then show ?case by simp
next
  case (Cons th ths)
  from Cons.prems(1) obtain th' r' where
    w: "Thread_wait_for_search_finished s th = Some th'" and
    rest: "wait_each s ths = Inr r'" and r: "r = th' # r'"
    by (auto simp: and_then_def or_blocks_def split: option.splits sum.splits)
  have "(main_part th' = None) = (main_part th = None)"
    using w Cons.prems(2) unfolding Thread_wait_for_search_finished_def
    by (rule blocked_until_type)
  moreover have "length r' = length ths \<and> list_all (\<lambda>th. main_part th = None) r'"
    using Cons.IH[OF rest Cons.prems(2)] Cons.prems(3) by simp
  ultimately show ?case
    using r Cons.prems(3) by simp
qed

lemma clear_keeps_main_slot:
  assumes "ThreadPool_clear c p = Inr p'" and "one_main_at_front (threads p)"
  shows "one_main_at_front (threads p') \<and> length (threads p') = length (threads p)"
proof (cases "threads p")
  case Nil
  then show ?thesis using assms(1) by (simp add: ThreadPool_clear_def)
next
  case (Cons m rest)
  then obtain mp where mp: "main_part m = Some mp"
    using assms(2) by (auto simp: one_main_at_front_def)
  have "p' = p\<lparr>threads := cleared_main c m mp # map (Thread_clear c) rest\<rparr>"
    using ThreadPool_clear_result[OF Cons mp, of c] assms(1) by simp
  then show ?thesis
    using Cons assms(2)
    by (simp add: one_main_at_front_def cleared_main_props list_all_iff)
qed

lemma start_thinking_keeps_main_slot:
  assumes "ThreadPool_start_thinking e pos states lmts ponderMode p = Inr (p', states')"
    and "one_main_at_front (threads p)"
  shows "one_main_at_front (threads p') \<and> length (threads p') = length (threads p)"
proof -
  from start_thinking_Inr[OF assms(1)] obtain m rest m1 mp sts where
    p: "threads p = m # rest" and
    w: "Thread_wait_for_search_finished (search_body e) m = Some m1" and
    mp: "main_part m1 = Some mp" and
    st: "states = Some sts \<or> (states = None \<and> setupStates p = Some sts)" and
    ne: "sts \<noteq> []"
    by blast
  have "p' = thinking_pool e pos lmts ponderMode p m1 mp rest sts"
    using start_thinking_result[OF p w mp st ne, of pos lmts ponderMode] assms(1) by simp
  then show ?thesis
    using p assms(2)
    by (simp add: one_main_at_front_def thinking_pool_def list_all_iff)
qed

lemma start_searching_keeps_main_slot:
  assumes "one_main_at_front (threads p)"
  shows "one_main_at_front (threads (ThreadPool_start_searching p))
       \<and> length (threads (ThreadPool_start_searching p)) = length (threads p)"
  using assms
  by (cases "threads p")
     (simp_all add: ThreadPool_start_searching_def one_main_at_front_def list_all_iff)

lemma wait_keeps_main_slot:
  assumes "ThreadPool_wait_for_search_finished s p = Inr p'" and "keeps_dynamic_type s"
    and "one_main_at_front (threads p)"
  shows "one_main_at_front (threads p') \<and> length (threads p') = length (threads p)"
proof (cases "threads p")
  case Nil
  then show ?thesis using assms(1,3) by (simp add: ThreadPool_wait_for_search_finished_def)
next
  case (Cons m rest)
  then obtain rest' where r: "wait_each s rest = Inr rest'" and p': "p' = p\<lparr>threads := m # rest'\<rparr>"
    using assms(1)
    by (auto simp: ThreadPool_wait_for_search_finished_def and_then_def split: sum.splits)
  have "list_all (\<lambda>th. main_part th = None) rest"
    using assms(3) Cons by (simp add: one_main_at_front_def)
  from wait_each_main_parts[OF r assms(2) this] show ?thesis
    using p' Cons assms(3) by (simp add: one_main_at_front_def)
qed

text \<open>
  What holds of the pool when no construction goes wrong. A call \<^verbatim>\<open>set(n)\<close> that returns
  leaves exactly \<open>n\<close> workers with a \<^verbatim>\<open>MainThread\<close> in slot 0 and in no other slot; on an
  idle pool, and with no worker reading \<^verbatim>\<open>_threads\<close> too early, it returns. That exactly the
  first slot holds the main thread is kept, together with the size of the pool, by
  \<^verbatim>\<open>clear\<close>, \<^verbatim>\<open>start_thinking\<close>, \<^verbatim>\<open>start_searching\<close> and \<^verbatim>\<open>wait_for_search_finished\<close> (for
  the last, given that a search does not change the dynamic type of its thread object).
\<close>

lemma main_slot_invariant:
  "(\<forall>p'. ThreadPool_set e n p = Inr p' \<longrightarrow>
        length (threads p') = n \<and> one_main_at_front (threads p')
        \<and> (0 < n \<longrightarrow> main_part (hd (threads p')) \<noteq> None))
   \<and> (list_all parked (threads p) \<and> (0 < n \<longrightarrow> no_early_read e n)
        \<longrightarrow> (\<exists>p'. ThreadPool_set e n p = Inr p'))
   \<and> (one_main_at_front (threads p) \<longrightarrow>
        (\<forall>p'. ThreadPool_clear c p = Inr p' \<longrightarrow>
            one_main_at_front (threads p') \<and> length (threads p') = length (threads p))
      \<and> (\<forall>p' states'. ThreadPool_start_thinking e pos states lmts ponderMode p = Inr (p', states')
            \<longrightarrow> one_main_at_front (threads p') \<and> length (threads p') = length (threads p))
      \<and> one_main_at_front (threads (ThreadPool_start_searching p))
      \<and> length (threads (ThreadPool_start_searching p)) = length (threads p)
      \<and> (keeps_dynamic_type (search_body e) \<longrightarrow>
           (\<forall>p'. ThreadPool_wait_for_search_finished (search_body e) p = Inr p' \<longrightarrow>
              one_main_at_front (threads p') \<and> length (threads p') = length (threads p))))"
proof -
  have a: "length (threads p') = n \<and> one_main_at_front (threads p')
           \<and> (0 < n \<longrightarrow> main_part (hd (threads p')) \<noteq> None)"
    if "ThreadPool_set e n p = Inr p'" for p'
  proof (cases "0 < n")
    case True
    then show ?thesis
      using ThreadPool_set_Inr[OF that] by (simp add: fresh_pool_threads_props)
  next
    case False
    then show ?thesis
      using ThreadPool_set_Inr[OF that] by (simp add: one_main_at_front_def)
  qed
  have b: "\<exists>p'. ThreadPool_set e n p = Inr p'"
    if "list_all parked (threads p) \<and> (0 < n \<longrightarrow> no_early_read e n)"
    using ThreadPool_set_result[where e = e and n = n and p = p, OF destroy_threads_parked] that
    by blast
  show ?thesis
    using a b clear_keeps_main_slot start_thinking_keeps_main_slot
      start_searching_keeps_main_slot wait_keeps_main_slot
    by blast
qed

text \<open>
  Claim C7 at its failing input. \<^verbatim>\<open>set(3)\<close> on an idle pool of two, with a scheduler that
  lets the worker of the thread built in slot 1 read \<^verbatim>\<open>_threads\<close> before its constructor
  has stored it, has undefined behaviour in that constructor instead of leaving a pool of
  three workers. Under a scheduler without such a read the same call returns a pool of
  exactly three workers with the main thread in slot 0 and nowhere else, and \<^verbatim>\<open>set(0)\<close>,
  which constructs nothing, leaves the pool empty under either scheduler.
\<close>

theorem set_undefined_in_constructor:
  "ThreadPool_set (racy_env 1) 3 idle_pool = Inl UndefinedBehaviour
   \<and> \<not> isl (ThreadPool_set demo_env 3 idle_pool)
   \<and> length (threads (projr (ThreadPool_set demo_env 3 idle_pool))) = 3
   \<and> one_main_at_front (threads (projr (ThreadPool_set demo_env 3 idle_pool)))
   \<and> \<not> isl (ThreadPool_set (racy_env 1) 0 idle_pool)
   \<and> threads (projr (ThreadPool_set (racy_env 1) 0 idle_pool)) = []"
proof -
  have idle: "list_all parked (threads idle_pool)"
    by (simp add: idle_pool_reads parked_def)
  have d: "destroy_threads s (threads idle_pool) = Inr []" for s
    using idle by (rule destroy_threads_parked)
  have bad: "ThreadPool_set (racy_env 1) 3 idle_pool = Inl UndefinedBehaviour"
    by (intro ThreadPool_set_undefined[OF d]) (simp_all add: demo_env_reads)
  have good: "ThreadPool_set demo_env 3 idle_pool
      = Inr (idle_pool\<lparr>threads := fresh_pool_threads demo_env 3,
               calls := calls idle_pool @ [TT_resize (option_Hash demo_env) (fresh_pool_threads demo_env 3),
                                           Search_init (fresh_pool_threads demo_env 3)]\<rparr>)"
    using ThreadPool_set_result[where e = demo_env and n = 3 and p = idle_pool, OF d]
    by (simp add: demo_env_reads)
  have zero: "ThreadPool_set (racy_env 1) 0 idle_pool = Inr (idle_pool\<lparr>threads := []\<rparr>)"
    using ThreadPool_set_result[where e = "racy_env 1" and n = 0 and p = idle_pool, OF d]
    by simp
  show ?thesis
    using bad fresh_pool_threads_props(1,2)[where e = demo_env and n = 3]
    unfolding good zero by simp
qed

section \<open>Descriptors of \<^verbatim>\<open>pipe_wrapper\<close>\<close>

text \<open>The status: 1 when a \<^verbatim>\<open>pipe\<close> call fails, when a stream does not count as open (its
  descriptor is 0) or when the thread cannot be created, and 0 otherwise.\<close>

lemma pipe_wrapper_status:
  "fst (pipe_wrapper os) =
     (case (pipe_in_result os, pipe_out_result os) of
        (Some (in_r, in_w), Some (out_r, out_w)) \<Rightarrow>
          if in_w = 0 \<or> out_r = 0 \<or> \<not> thread_created os then 1 else 0
      | _ \<Rightarrow> 1)"
  by (auto simp: pipe_wrapper_def Let_def filebuf2_open_def filebuf2_is_open_def
      split: option.splits prod.splits)

lemma pipe_wrapper_success_closes_all:
  "pipe_wrapper os_all_succeed = (0, {})"
  by (auto simp: pipe_wrapper_def os_all_succeed_def Let_def filebuf2_open_def filebuf2_is_open_def
      filebuf2_close_def filebuf2_dtor_def session_descriptors_def)

text \<open>
  Claim C4 at its failing inputs. When the second \<^verbatim>\<open>pipe\<close> call fails, \<^verbatim>\<open>pipe_wrapper\<close>
  returns 1 with both descriptors of the first pipe (here 3 and 4) still open; when
  \<^verbatim>\<open>pthread_create\<close> fails it returns 1 with the two descriptors meant for the session
  (here 3 and 6) still open, the other two having been closed by the destructors of the
  streams that wrap them.
\<close>

theorem pipe_wrapper_leaves_descriptors_open:
  "pipe_wrapper os_second_pipe_fails = (1, {3, 4})
   \<and> pipe_wrapper os_thread_fails = (1, {3, 6})"
  by (auto simp: pipe_wrapper_def os_second_pipe_fails_def os_thread_fails_def Let_def
      filebuf2_open_def filebuf2_is_open_def filebuf2_close_def filebuf2_dtor_def)

end
